theory Spec2Isabelle
  imports Main "HOL-Library.Sublist" "HOL-Library.Word"
begin

section \<open>gohttpd: the per-request pipeline of httpd.go\<close>

text \<open>
  A shallow embedding of \<^verbatim>\<open>requestHandler\<close>, \<^verbatim>\<open>showListing\<close>, \<^verbatim>\<open>isHiddenPath\<close>,
  \<^verbatim>\<open>stringInSlice\<close> and the three static tables of \<^verbatim>\<open>httpd.go\<close>. The path separator
  is \<^verbatim>\<open>/\<close> throughout (the source hard-codes it in \<^verbatim>\<open>isHiddenPath\<close> and in the index
  path), so the standard library functions are the Unix ones. Strings are byte
  strings, as Go's are.
\<close>

subsection \<open>Static tables\<close>

definition mime_table :: "(string \<times> string) list" where
  "mime_table =
    [(''html'', ''text/html''),
     (''js'', ''application/javascript''),
     (''css'', ''text/css''),
     (''xml'', ''text/xml''),
     (''xhtml'', ''application/xhtml+xml''),
     (''txt'', ''text/plain''),
     (''json'', ''application/json''),
     (''png'', ''image/png''),
     (''jpg'', ''image/jpeg''),
     (''jpeg'', ''image/jpeg''),
     (''gif'', ''image/gif''),
     (''svg'', ''image/svg+xml''),
     (''webp'', ''image/webp''),
     (''ico'', ''image/x-icon''),
     (''mp3'', ''audio/mpeg''),
     (''ogg'', ''audio/ogg''),
     (''m4a'', ''audio/x-m4a''),
     (''avi'', ''video/x-msvideo''),
     (''mp4'', ''video/mp4''),
     (''mov'', ''video/quicktime''),
     (''ts'', ''video/mp2t''),
     (''webm'', ''video/webm''),
     (''m3u8'', ''application/vnd.apple.mpegurl''),
     (''eot'', ''application/vnd.ms-fontobject''),
     (''ttf'', ''font/ttf''),
     (''woff'', ''font/woff''),
     (''woff2'', ''font/woff2''),
     (''otf'', ''font/otf''),
     (''pdf'', ''application/pdf''),
     (''csv'', ''text/csv''),
     (''7z'', ''application/x-ms-compressed''),
     (''zip'', ''application/zip''),
     (''rar'', ''application/x-rar-compressed'')]"

text \<open>The map \<^verbatim>\<open>mimes\<close>: lookup by key in the literal's entries.\<close>

definition mimes :: "string \<rightharpoonup> string" where
  "mimes = map_of mime_table"

definition compressExts :: "string list" where
  "compressExts =
    [''css'', ''csv'', ''eot'', ''html'', ''js'', ''json'',
     ''otf'', ''svg'', ''ttf'', ''txt'', ''xhtml'', ''xml'']"

definition indexFiles :: "string list" where
  "indexFiles = [''index.html'', ''index.xhtml'']"

subsection \<open>Data: file metadata, requests, responses, the environment\<close>

text \<open>
  \<^verbatim>\<open>os.FileInfo\<close>: the four accessors the program reads. \<^verbatim>\<open>Size()\<close> is an
  \<^verbatim>\<open>int64\<close>; \<^verbatim>\<open>ModTime()\<close> is an instant, here in nanoseconds since the Unix epoch.
\<close>

record file_info =
  fi_name :: string
  fi_is_dir :: bool
  fi_size :: "64 word"
  fi_mod_time :: int

text \<open>
  The request fields the handler reads; the header map is keyed by the canonical
  header name. \<^verbatim>\<open>Header.Get\<close> yields the empty string for a header that is absent.
\<close>

record request =
  rq_method :: string
  rq_path :: string
  rq_header :: "string \<rightharpoonup> string"

definition header_Get :: "(string \<rightharpoonup> string) \<Rightarrow> string \<Rightarrow> string" where
  "header_Get h k = (case h k of None \<Rightarrow> [] | Some v \<Rightarrow> v)"

text \<open>
  A header value is a string or the \<^verbatim>\<open>http.TimeFormat\<close> rendering of an instant
  (kept as the instant: the calendar arithmetic of \<^verbatim>\<open>Time.Format\<close> is not modelled).
\<close>

datatype header_value = Str string | HttpDate int

text \<open>
  One row of the listing table: the values the template's actions put into the link
  target, the link text, the size cell and the date cell (before the template
  library's escaping and date formatting; \<open>None\<close> is the dash shown for a directory).
\<close>

record listing_row =
  row_href :: string
  row_text :: string
  row_size :: "64 word option"
  row_modified :: "int option"

text \<open>
  What the handler writes to the response writer: nothing, a text line, the bytes
  of a file, the gzip stream of the bytes of a file, or the listing page (its
  heading path and its table rows). The status of a response is the one passed to
  \<^verbatim>\<open>WriteHeader\<close>, or 200 when the handler returns without calling it; the headers
  are the ones the handler sets.
\<close>

datatype body =
    NoBody
  | Text string
  | FileBytes string
  | GzipStream string
  | ListingPage string "listing_row list"

record response =
  rs_status :: nat
  rs_header :: "string \<rightharpoonup> header_value"
  rs_body :: body

text \<open>
  The handler either returns, and the response is complete, or panics: control
  leaves the handler at the panic, and nothing the handler does after it (no error
  status, no error text) is ever written.
\<close>

datatype panic = SliceBounds | TemplateParse | TemplateExecute

datatype outcome = Response response | Panic panic

text \<open>
  Everything outside the program that a request depends on: the three filesystem
  calls (each may fail on its own), \<^verbatim>\<open>time.Parse\<close> with the layout
  \<^verbatim>\<open>http.TimeFormat\<close>, whether \<^verbatim>\<open>template.Parse\<close> accepts \<^verbatim>\<open>listTemplate\<close>, and whether
  writes to the response writer succeed (the only write whose error the program looks
  at is the template's).
\<close>

record world =
  os_Stat :: "string \<Rightarrow> file_info option"
  os_Open :: "string \<Rightarrow> string option"
  ioutil_ReadDir :: "string \<Rightarrow> file_info list option"
  time_Parse :: "string \<Rightarrow> int option"
  template_Parse_ok :: bool
  writer_ok :: bool

subsection \<open>Library functions: strings and paths\<close>

text \<open>\<^verbatim>\<open>strings.Index\<close>: the index of the first occurrence, or \<^verbatim>\<open>-1\<close>.\<close>

fun index_from :: "string \<Rightarrow> string \<Rightarrow> nat \<Rightarrow> int" where
  "index_from [] sub i = (if sub = [] then int i else - 1)"
| "index_from (c # cs) sub i =
     (if prefix sub (c # cs) then int i else index_from cs sub (Suc i))"

definition strings_Index :: "string \<Rightarrow> string \<Rightarrow> int" where
  "strings_Index s sub = index_from s sub 0"

definition strings_Contains :: "string \<Rightarrow> string \<Rightarrow> bool" where
  "strings_Contains s sub = (0 \<le> strings_Index s sub)"

text \<open>
  \<^verbatim>\<open>filepath.Clean\<close>. The output buffer is the list \<open>out\<close> (its length is the
  write index \<^verbatim>\<open>w\<close>), the unread input is the first argument, \<open>dotdot\<close> is the index
  below which a \<^verbatim>\<open>..\<close> element may not backtrack.
\<close>

function backtrack :: "string \<Rightarrow> nat \<Rightarrow> nat \<Rightarrow> nat" where
  "backtrack buf dotdot w =
     (if dotdot < w \<and> buf ! w \<noteq> CHR ''/'' then backtrack buf dotdot (w - 1) else w)"
  by pat_completeness auto
termination
  by (relation "measure (\<lambda>(buf, dotdot, w). w)") auto

declare backtrack.simps [simp del]

function clean_loop :: "bool \<Rightarrow> string \<Rightarrow> string \<Rightarrow> nat \<Rightarrow> string" where
  "clean_loop rooted [] out dotdot = out"
| "clean_loop rooted (c # cs) out dotdot =
     (if c = CHR ''/'' then clean_loop rooted cs out dotdot
      else if c = CHR ''.'' \<and> (cs = [] \<or> hd cs = CHR ''/'') then
        clean_loop rooted cs out dotdot
      else if c = CHR ''.'' \<and> hd cs = CHR ''.'' \<and> (tl cs = [] \<or> hd (tl cs) = CHR ''/'') then
        (if dotdot < length out then
           clean_loop rooted (tl cs)
             (take (backtrack out dotdot (length out - 1)) out) dotdot
         else if \<not> rooted then
           (let out' = (if 0 < length out then out @ ''/'' else out) @ ''..''
            in clean_loop rooted (tl cs) out' (length out'))
         else clean_loop rooted (tl cs) out dotdot)
      else
        (let out' = (if rooted \<and> length out \<noteq> 1 \<or> \<not> rooted \<and> length out \<noteq> 0
                     then out @ ''/'' else out)
         in clean_loop rooted (dropWhile (\<lambda>x. x \<noteq> CHR ''/'') cs)
              (out' @ c # takeWhile (\<lambda>x. x \<noteq> CHR ''/'') cs) dotdot))"
  by pat_completeness auto
termination
proof (relation "measure (\<lambda>(rooted, rest, out, dotdot). length rest)", goal_cases)
  case 1
  show ?case by simp
next
  case 2
  show ?case by simp
next
  case 3
  show ?case by simp
next
  case 4
  show ?case by simp
next
  case 5
  show ?case by simp
next
  case 6
  show ?case by simp
next
  case (7 rooted c cs out dotdot x)
  have "length (dropWhile (\<lambda>x. x \<noteq> CHR ''/'') cs) \<le> length cs"
    by (rule length_dropWhile_le)
  then show ?case by simp
qed

definition filepath_Clean :: "string \<Rightarrow> string" where
  "filepath_Clean path =
     (if path = [] then ''.''
      else
        (let rooted = (hd path = CHR ''/'');
             out = (if rooted then clean_loop True (tl path) ''/'' 1
                    else clean_loop False path [] 0)
         in if out = [] then ''.'' else out))"

text \<open>
  \<^verbatim>\<open>filepath.Ext\<close>: scan from the end up to the last separator; the suffix from the
  final dot of the final element, or empty. The argument \<open>acc\<close> is the part already
  scanned, to the right of the scan position.
\<close>

fun ext_scan :: "string \<Rightarrow> string \<Rightarrow> string" where
  "ext_scan [] acc = []"
| "ext_scan (c # rev_rest) acc =
     (if c = CHR ''/'' then []
      else if c = CHR ''.'' then c # acc
      else ext_scan rev_rest (c # acc))"

definition filepath_Ext :: "string \<Rightarrow> string" where
  "filepath_Ext path = ext_scan (rev path) []"

subsection \<open>The program\<close>

fun stringInSlice :: "string \<Rightarrow> string list \<Rightarrow> bool" where
  "stringInSlice a [] = False"
| "stringInSlice a (b # list) = (if b = a then True else stringInSlice a list)"

definition isHiddenPath :: "string \<Rightarrow> bool" where
  "isHiddenPath path =
     (1 < length path \<and> path ! 0 = CHR ''.'' \<or> strings_Index path ''/.'' \<noteq> - 1)"

text \<open>
  \<^verbatim>\<open>http.Error\<close>: two headers, the status and the message on a line of its own.
\<close>

definition http_Error :: "string \<Rightarrow> nat \<Rightarrow> response" where
  "http_Error msg code =
     \<lparr>rs_status = code,
      rs_header = [''Content-Type'' \<mapsto> Str ''text/plain; charset=utf-8'',
                   ''X-Content-Type-Options'' \<mapsto> Str ''nosniff''],
      rs_body = Text (msg @ [CHR 0x0A])\<rparr>"

text \<open>
  The body of \<^verbatim>\<open>listTemplate\<close>'s \<^verbatim>\<open>range\<close>: one table row for an entry. A directory
  gets the separator after its name in the link and in the text, and a dash in the
  size and date cells.
\<close>

definition render_row :: "file_info \<Rightarrow> listing_row" where
  "render_row f =
     \<lparr>row_href = fi_name f @ (if fi_is_dir f then ''/'' else []),
      row_text = fi_name f @ (if fi_is_dir f then ''/'' else []),
      row_size = (if fi_is_dir f then None else Some (fi_size f)),
      row_modified = (if fi_is_dir f then None else Some (fi_mod_time f))\<rparr>"

text \<open>
  \<^verbatim>\<open>{{ range .Files }}{{ if (ne (index .Name 0) 46) }} row {{ end }}{{ end }}\<close>:
  \<^verbatim>\<open>index\<close> fails on an empty name, which ends the execution with an error.
\<close>

fun render_rows :: "file_info list \<Rightarrow> listing_row list option" where
  "render_rows [] = Some []"
| "render_rows (f # fs) =
     (if fi_name f = [] then None
      else (case render_rows fs of
              None \<Rightarrow> None
            | Some rows \<Rightarrow>
                Some (if fi_name f ! 0 \<noteq> CHR ''.'' then render_row f # rows else rows)))"

text \<open>
  \<^verbatim>\<open>t.Execute(writer, listTemplateInfo{path, files})\<close>: the page, or an error when an
  action fails or a write to the response writer does.
\<close>

definition template_Execute :: "world \<Rightarrow> string \<Rightarrow> file_info list \<Rightarrow> body option" where
  "template_Execute w path files =
     (if \<not> writer_ok w then None
      else (case render_rows files of
              None \<Rightarrow> None
            | Some rows \<Rightarrow> Some (ListingPage path rows)))"

definition showListing :: "world \<Rightarrow> string \<Rightarrow> outcome" where
  "showListing w path =
     (case ioutil_ReadDir w path of
        None \<Rightarrow> Response (http_Error ''File not found'' 404)
      | Some files \<Rightarrow>
          if \<not> template_Parse_ok w then Panic TemplateParse
          else (case template_Execute w path files of
                  None \<Rightarrow> Panic TemplateExecute
                | Some page \<Rightarrow>
                    Response \<lparr>rs_status = 200, rs_header = Map.empty, rs_body = page\<rparr>))"

text \<open>\<^verbatim>\<open>Time.Truncate(time.Second)\<close>: round down to a whole second.\<close>

definition truncate_second :: "int \<Rightarrow> int" where
  "truncate_second t = (t div 1000000000) * 1000000000"

text \<open>
  The extension of the served path: \<^verbatim>\<open>filepath.Ext\<close> without its leading dot.
\<close>

definition extension_of :: "string \<Rightarrow> string" where
  "extension_of path =
     (let extension = filepath_Ext path
      in if extension \<noteq> [] then tl extension else extension)"

text \<open>
  The loop over \<^verbatim>\<open>indexFiles\<close>: the first candidate whose stat succeeds and is not
  a directory, with its metadata.
\<close>

fun find_index :: "world \<Rightarrow> string \<Rightarrow> string list \<Rightarrow> (string \<times> file_info) option" where
  "find_index w path [] = None"
| "find_index w path (i # rest) =
     (let indexPath = path @ ''/'' @ i
      in (case os_Stat w indexPath of
            None \<Rightarrow> find_index w path rest
          | Some stat \<Rightarrow>
              if \<not> fi_is_dir stat then Some (indexPath, stat)
              else find_index w path rest))"

text \<open>
  The second half of \<^verbatim>\<open>requestHandler\<close>, from \<^verbatim>\<open>os.Open\<close> on: \<open>path\<close> and \<open>stat\<close>
  are the variables of that name when control reaches the open.
\<close>

definition serve_file :: "world \<Rightarrow> request \<Rightarrow> string \<Rightarrow> file_info \<Rightarrow> outcome" where
  "serve_file w req path stat =
     (case os_Open w path of
        None \<Rightarrow> Response (http_Error ''File not found'' 404)
      | Some content \<Rightarrow>
          (let extension = extension_of path;
               mimeType = (case mimes extension of
                             None \<Rightarrow> ''application/octet-stream''
                           | Some m \<Rightarrow> m);
               lastModified = truncate_second (fi_mod_time stat);
               hdr = [''Last-Modified'' \<mapsto> HttpDate lastModified,
                      ''Content-Type'' \<mapsto> Str mimeType];
               since = time_Parse w (header_Get (rq_header req) ''If-Modified-Since'')
           in if (case since of None \<Rightarrow> False | Some s \<Rightarrow> lastModified < s \<or> lastModified = s)
              then Response \<lparr>rs_status = 304, rs_header = hdr, rs_body = NoBody\<rparr>
              else if rq_method req = ''HEAD''
              then Response \<lparr>rs_status = 200, rs_header = hdr, rs_body = NoBody\<rparr>
              else
                (let acceptEnc = header_Get (rq_header req) ''Accept-Encoding''
                 in if 1024 <s fi_size stat \<and> strings_Contains acceptEnc ''gzip'' \<and>
                       extension \<noteq> [] \<and> stringInSlice extension compressExts
                    then Response
                           \<lparr>rs_status = 200,
                            rs_header = hdr(''Content-Encoding'' \<mapsto> Str ''gzip''),
                            rs_body = GzipStream content\<rparr>
                    else Response
                           \<lparr>rs_status = 200, rs_header = hdr, rs_body = FileBytes content\<rparr>)))"

text \<open>
  The first half of \<^verbatim>\<open>requestHandler\<close>, up to the open: a finished outcome, or
  the path and metadata of the file to serve. Slicing an empty \<^verbatim>\<open>URL.Path\<close> from
  index 1 panics.
\<close>

definition resolve :: "world \<Rightarrow> request \<Rightarrow> bool \<Rightarrow> outcome + string \<times> file_info" where
  "resolve w req listDir =
     (if rq_method req \<noteq> ''GET'' \<and> rq_method req \<noteq> ''HEAD''
      then Inl (Response (http_Error ''Method not allowed'' 405))
      else if rq_path req = [] then Inl (Panic SliceBounds)
      else
        (let path = filepath_Clean (tl (rq_path req))
         in if isHiddenPath path then Inl (Response (http_Error ''File not found'' 404))
            else (case os_Stat w path of
                    None \<Rightarrow> Inl (Response (http_Error ''File not found'' 404))
                  | Some stat \<Rightarrow>
                      if fi_is_dir stat then
                        (let lastChar = last (rq_path req)
                         in if path \<noteq> ''.'' \<and> lastChar \<noteq> CHR ''/''
                            then Inl (Response
                                   \<lparr>rs_status = 301,
                                    rs_header = [''Location'' \<mapsto> Str (''/'' @ path @ ''/'')],
                                    rs_body = NoBody\<rparr>)
                            else (case find_index w path indexFiles of
                                    None \<Rightarrow>
                                      if listDir then Inl (showListing w path)
                                      else Inl (Response (http_Error ''File not found'' 404))
                                  | Some found \<Rightarrow> Inr found))
                      else Inr (path, stat))))"

definition requestHandler :: "world \<Rightarrow> request \<Rightarrow> bool \<Rightarrow> outcome" where
  "requestHandler w req listDir =
     (case resolve w req listDir of
        Inl out \<Rightarrow> out
      | Inr (path, stat) \<Rightarrow> serve_file w req path stat)"

subsection \<open>Notions of the specification\<close>

text \<open>
  The derived extension in the specification's words: the substring after the last
  dot of the filename (the part of the path after the last separator), empty if the
  filename has no dot.
\<close>

definition derived_extension :: "string \<Rightarrow> string" where
  "derived_extension path =
     (let filename = rev (takeWhile (\<lambda>c. c \<noteq> CHR ''/'') (rev path))
      in if CHR ''.'' \<in> set filename
         then rev (takeWhile (\<lambda>c. c \<noteq> CHR ''.'') (rev filename))
         else [])"

text \<open>The characters the keys of the two extension tables are written in.\<close>

definition lower_or_digit :: "char \<Rightarrow> bool" where
  "lower_or_digit c = (c \<in> set ''abcdefghijklmnopqrstuvwxyz0123456789'')"

definition is_upper :: "char \<Rightarrow> bool" where
  "is_upper c = (c \<in> set ''ABCDEFGHIJKLMNOPQRSTUVWXYZ'')"

text \<open>The segments of a path: the pieces between separators.\<close>

fun segments :: "string \<Rightarrow> string list" where
  "segments [] = [[]]"
| "segments (c # cs) =
     (if c = CHR ''/'' then [] # segments cs
      else (c # hd (segments cs)) # tl (segments cs))"

definition starts_with_dot :: "string \<Rightarrow> bool" where
  "starts_with_dot s = (s \<noteq> [] \<and> hd s = CHR ''.'')"

text \<open>
  A segment that names a hidden file or directory: it starts with a dot and is
  neither the current nor the parent directory.
\<close>

definition dotfile :: "string \<Rightarrow> bool" where
  "dotfile seg = (starts_with_dot seg \<and> seg \<noteq> ''.'' \<and> seg \<noteq> ''..'')"

text \<open>An index candidate qualifies when it exists and is not itself a directory.\<close>

definition qualifies :: "world \<Rightarrow> string \<Rightarrow> bool" where
  "qualifies w p = (case os_Stat w p of None \<Rightarrow> False | Some st \<Rightarrow> \<not> fi_is_dir st)"

text \<open>
  The conditional check in the specification's words: the header value parses and
  the modification time, truncated to whole seconds, is earlier than or equal to the
  parsed instant.
\<close>

definition not_modified_since :: "world \<Rightarrow> request \<Rightarrow> file_info \<Rightarrow> bool" where
  "not_modified_since w req stat =
     (case time_Parse w (header_Get (rq_header req) ''If-Modified-Since'') of
        None \<Rightarrow> False
      | Some since \<Rightarrow> truncate_second (fi_mod_time stat) \<le> since)"

text \<open>
  The compression condition in the specification's words: the size exceeds 1024
  bytes, the extension is in the compressible set, and the \<^verbatim>\<open>Accept-Encoding\<close> header
  contains \<^verbatim>\<open>gzip\<close> as a substring.
\<close>

definition compression_applies :: "request \<Rightarrow> string \<Rightarrow> file_info \<Rightarrow> bool" where
  "compression_applies req path stat =
     (1024 < sint (fi_size stat) \<and>
      derived_extension path \<in> set compressExts \<and>
      (\<exists>pre post. header_Get (rq_header req) ''Accept-Encoding'' = pre @ ''gzip'' @ post))"

text \<open>
  The two headers set on every opened file, whatever the status: the modification
  time truncated to the second, and the content type by the extension.
\<close>

definition file_headers :: "string \<Rightarrow> file_info \<Rightarrow> string \<rightharpoonup> header_value" where
  "file_headers path stat =
     [''Last-Modified'' \<mapsto> HttpDate (truncate_second (fi_mod_time stat)),
      ''Content-Type'' \<mapsto> Str (case mimes (derived_extension path) of
                               None \<Rightarrow> ''application/octet-stream''
                             | Some m \<Rightarrow> m)]"

text \<open>Lowercasing of ASCII letters; every other character is kept.\<close>

definition to_lower :: "char \<Rightarrow> char" where
  "to_lower c =
     (case map_of (zip ''ABCDEFGHIJKLMNOPQRSTUVWXYZ'' ''abcdefghijklmnopqrstuvwxyz'') c of
        None \<Rightarrow> c
      | Some l \<Rightarrow> l)"

text \<open>
  A request resolves to an existing directory \<open>p\<close>: it passes the method gate, its
  path can be sliced, \<open>p\<close> is the normalized path, \<open>p\<close> is not hidden, and the stat of
  \<open>p\<close> succeeds and reports a directory.
\<close>

definition resolves_to_directory :: "world \<Rightarrow> request \<Rightarrow> string \<Rightarrow> bool" where
  "resolves_to_directory w req p =
     ((rq_method req = ''GET'' \<or> rq_method req = ''HEAD'') \<and>
      rq_path req \<noteq> [] \<and>
      p = filepath_Clean (tl (rq_path req)) \<and>
      \<not> isHiddenPath p \<and>
      (case os_Stat w p of None \<Rightarrow> False | Some st \<Rightarrow> fi_is_dir st))"

text \<open>
  A directory-listing request: it resolves to a directory, is not redirected, and no
  index candidate qualifies.
\<close>

definition listing_request :: "world \<Rightarrow> request \<Rightarrow> string \<Rightarrow> bool" where
  "listing_request w req p =
     (resolves_to_directory w req p \<and>
      (p = ''.'' \<or> last (rq_path req) = CHR ''/'') \<and>
      \<not> qualifies w (p @ ''/index.html'') \<and>
      \<not> qualifies w (p @ ''/index.xhtml''))"

text \<open>
  A path confined to the server root, lexically: relative, and with no \<^verbatim>\<open>..\<close>
  segment.
\<close>

definition confined :: "string \<Rightarrow> bool" where
  "confined q = (\<not> prefix ''/'' q \<and> ''..'' \<notin> set (segments q))"

subsection \<open>An example site\<close>

definition dir_entry :: "string \<Rightarrow> file_info" where
  "dir_entry n = \<lparr>fi_name = n, fi_is_dir = True, fi_size = 4096, fi_mod_time = 0\<rparr>"

definition file_entry :: "string \<Rightarrow> 64 word \<Rightarrow> int \<Rightarrow> file_info" where
  "file_entry n sz t = \<lparr>fi_name = n, fi_is_dir = False, fi_size = sz, fi_mod_time = t\<rparr>"

text \<open>
  The files of the example, by the path the operating system is asked for, relative
  to the server's working directory. The last one lies outside it.
\<close>

definition site_files :: "(string \<times> file_info) list" where
  "site_files =
    [(''.'', dir_entry ''.''),
     (''./index.html'', file_entry ''index.html'' 300 7000000000),
     (''docs'', dir_entry ''docs''),
     (''docs/index.html'', file_entry ''index.html'' 120 7000000000),
     (''pics'', dir_entry ''pics''),
     (''style.css'', file_entry ''style.css'' 2000 10500000000),
     (''small.css'', file_entry ''small.css'' 1024 10500000000),
     (''README.TXT'', file_entry ''README.TXT'' 5000 20000000000),
     (''data.bin'', file_entry ''data.bin'' 3000 20000000000),
     (''a.txt'', file_entry ''a.txt'' 5 20000000000),
     (''secret'', dir_entry ''secret''),
     (''secret/.env'', file_entry ''.env'' 20 20000000000),
     (''/etc/passwd'', file_entry ''passwd'' 1500 20000000000)]"

definition bytes_of :: "string \<Rightarrow> string" where
  "bytes_of p = ''contents of '' @ p"

definition site :: world where
  "site =
     \<lparr>os_Stat = map_of site_files,
      os_Open = (\<lambda>p. case map_of site_files p of
                         None \<Rightarrow> None
                       | Some st \<Rightarrow> if fi_is_dir st then None else Some (bytes_of p)),
      ioutil_ReadDir = map_of
        [(''pics'', [dir_entry ''.thumbs'', file_entry ''a.png'' 900 5000000000,
                     file_entry ''.DS_Store'' 6148 5000000000, dir_entry ''sub''])],
      time_Parse = map_of [(''Thu, 01 Jan 1970 00:00:10 GMT'', 10000000000)],
      template_Parse_ok = True,
      writer_ok = True\<rparr>"

text \<open>The same site when the client has gone away: writes to the response fail.\<close>

definition broken_pipe :: world where
  "broken_pipe = site\<lparr>writer_ok := False\<rparr>"

definition http_request :: "string \<Rightarrow> string \<Rightarrow> (string \<times> string) list \<Rightarrow> request" where
  "http_request m p hs = \<lparr>rq_method = m, rq_path = p, rq_header = map_of hs\<rparr>"

section \<open>Auxiliary facts\<close>

subsection \<open>Evaluation and library functions\<close>

lemma backtrack_0: "backtrack buf dotdot 0 = 0"
  by (simp add: backtrack.simps)

lemma backtrack_Suc:
  "backtrack buf dotdot (Suc n) =
     (if dotdot < Suc n \<and> buf ! Suc n \<noteq> CHR ''/'' then backtrack buf dotdot n else Suc n)"
  by (subst backtrack.simps) simp

lemmas eval_path = filepath_Clean_def isHiddenPath_def strings_Index_def backtrack_0 backtrack_Suc Let_def
lemmas eval_site = site_def site_files_def file_entry_def dir_entry_def http_request_def bytes_of_def
   indexFiles_def header_Get_def

lemma ext_scan_eq:
  "ext_scan r acc =
     (if CHR ''.'' \<in> set (takeWhile (\<lambda>c. c \<noteq> CHR ''/'') r)
      then CHR ''.'' # rev (takeWhile (\<lambda>c. c \<noteq> CHR ''.'') (takeWhile (\<lambda>c. c \<noteq> CHR ''/'') r)) @ acc
      else [])"
  by (induction r arbitrary: acc) auto

lemma extension_of_eq: "extension_of path = derived_extension path"
  by (simp add: extension_of_def derived_extension_def filepath_Ext_def ext_scan_eq Let_def)

lemma requestHandler_serves:
  "resolve w req listDir = Inr (path, stat) \<Longrightarrow>
   requestHandler w req listDir = serve_file w req path stat"
  by (simp add: requestHandler_def)

lemma stringInSlice_iff: "stringInSlice a list \<longleftrightarrow> a \<in> set list"
  by (induction list) auto

lemma index_from_range: "index_from s sub i = - 1 \<or> int i \<le> index_from s sub i"
  by (induction s arbitrary: i) (auto, force)

lemma index_from_found:
  "index_from s sub i \<noteq> - 1 \<longleftrightarrow> (\<exists>pre post. s = pre @ sub @ post)"
proof (induction s arbitrary: i)
  case Nil
  show ?case by auto
next
  case (Cons c cs)
  show ?case
  proof (cases "prefix sub (c # cs)")
    case True
    then obtain post where "c # cs = sub @ post" by (auto simp add: prefix_def)
    then have "c # cs = [] @ sub @ post" by simp
    then have "\<exists>pre post. c # cs = pre @ sub @ post" by blast
    with True show ?thesis by simp
  next
    case False
    have "(\<exists>pre post. c # cs = pre @ sub @ post) \<longleftrightarrow> (\<exists>pre post. cs = pre @ sub @ post)"
    proof
      assume "\<exists>pre post. c # cs = pre @ sub @ post"
      then obtain pre post where e: "c # cs = pre @ sub @ post" by blast
      show "\<exists>pre post. cs = pre @ sub @ post"
      proof (cases pre)
        case Nil
        with e have "prefix sub (c # cs)" by (simp add: prefix_def)
        with False show ?thesis by simp
      next
        case (Cons a pre')
        with e have "cs = pre' @ sub @ post" by simp
        then show ?thesis by blast
      qed
    next
      assume "\<exists>pre post. cs = pre @ sub @ post"
      then obtain pre post where "cs = pre @ sub @ post" by blast
      then have "c # cs = (c # pre) @ sub @ post" by simp
      then show "\<exists>pre post. c # cs = pre @ sub @ post" by blast
    qed
    with False Cons.IH [of "Suc i"] show ?thesis by simp
  qed
qed

lemma strings_Contains_iff:
  "strings_Contains s sub \<longleftrightarrow> (\<exists>pre post. s = pre @ sub @ post)"
proof -
  have "0 \<le> index_from s sub 0 \<longleftrightarrow> index_from s sub 0 \<noteq> - 1"
    using index_from_range [of s sub 0] by auto
  then show ?thesis
    by (simp add: strings_Contains_def strings_Index_def index_from_found)
qed

subsection \<open>The extension tables\<close>

lemma lower_fixed: "list_all (\<lambda>c. to_lower c = c) ''abcdefghijklmnopqrstuvwxyz0123456789''"
  by code_simp

lemma lower_not_mapped: "lower_or_digit c \<Longrightarrow> to_lower c = c"
  using lower_fixed unfolding lower_or_digit_def list_all_iff by blast

lemma to_lower_id: "list_all lower_or_digit e \<Longrightarrow> map to_lower e = e"
  by (induction e) (simp_all add: lower_not_mapped)

lemma mime_table_lower: "list_all (\<lambda>(k, v). list_all lower_or_digit k) mime_table"
  by code_simp

lemma mimes_keys_lower:
  assumes "mimes k = Some v"
  shows "list_all lower_or_digit k"
proof -
  from assms have "(k, v) \<in> set mime_table"
    by (simp add: mimes_def map_of_SomeD)
  with mime_table_lower show ?thesis
    by (auto simp add: list_all_iff)
qed

lemma compressExts_lower:
  assumes "k \<in> set compressExts"
  shows "list_all lower_or_digit k"
proof -
  have "list_all (list_all lower_or_digit) compressExts"
    by code_simp
  with assms show ?thesis
    by (simp add: list_all_iff)
qed

subsection \<open>Serving an opened file\<close>

lemma compression_applies_eq:
  "(1024 <s fi_size stat \<and>
    strings_Contains (header_Get (rq_header req) ''Accept-Encoding'') ''gzip'' \<and>
    extension_of path \<noteq> [] \<and> stringInSlice (extension_of path) compressExts)
   = compression_applies req path stat"
proof -
  have "[] \<notin> set compressExts"
    by (simp add: compressExts_def)
  then have "derived_extension path \<in> set compressExts \<Longrightarrow> derived_extension path \<noteq> []"
    by metis
  then show ?thesis
    unfolding compression_applies_def extension_of_eq stringInSlice_iff
      strings_Contains_iff word_sless_alt
    by auto
qed

lemma not_modified_since_eq:
  "(case time_Parse w (header_Get (rq_header req) ''If-Modified-Since'') of
      None \<Rightarrow> False
    | Some s \<Rightarrow> truncate_second (fi_mod_time stat) < s \<or>
                truncate_second (fi_mod_time stat) = s)
   = not_modified_since w req stat"
  by (auto simp add: not_modified_since_def split: option.splits)

lemma serve_file_opened:
  assumes "os_Open w path = Some content"
  shows "serve_file w req path stat =
     Response
       (if not_modified_since w req stat
        then \<lparr>rs_status = 304, rs_header = file_headers path stat, rs_body = NoBody\<rparr>
        else if rq_method req = ''HEAD''
        then \<lparr>rs_status = 200, rs_header = file_headers path stat, rs_body = NoBody\<rparr>
        else if compression_applies req path stat
        then \<lparr>rs_status = 200,
              rs_header = (file_headers path stat)(''Content-Encoding'' \<mapsto> Str ''gzip''),
              rs_body = GzipStream content\<rparr>
        else \<lparr>rs_status = 200, rs_header = file_headers path stat,
              rs_body = FileBytes content\<rparr>)"
  unfolding serve_file_def Let_def not_modified_since_eq compression_applies_eq
  using assms by (simp add: file_headers_def extension_of_eq)

lemma serve_file_unopened:
  "os_Open w path = None \<Longrightarrow>
   serve_file w req path stat = Response (http_Error ''File not found'' 404)"
  by (simp add: serve_file_def)

subsection \<open>The example site, evaluated\<close>

lemma resolve_data_bin:
  "resolve site (http_request ''GET'' ''/data.bin'' hs) b =
     Inr (''data.bin'', file_entry ''data.bin'' 3000 20000000000)"
  by (simp add: resolve_def eval_path eval_site)

lemma resolve_readme:
  "resolve site (http_request ''GET'' ''/README.TXT'' hs) b =
     Inr (''README.TXT'', file_entry ''README.TXT'' 5000 20000000000)"
  by (simp add: resolve_def eval_path eval_site)

lemma resolve_style:
  "resolve site (http_request ''GET'' ''/style.css'' hs) b =
     Inr (''style.css'', file_entry ''style.css'' 2000 10500000000)"
  by (simp add: resolve_def eval_path eval_site)

lemma resolve_small:
  "resolve site (http_request ''GET'' ''/small.css'' hs) b =
     Inr (''small.css'', file_entry ''small.css'' 1024 10500000000)"
  by (simp add: resolve_def eval_path eval_site)

lemma open_site_files:
  "os_Open site ''data.bin'' = Some (bytes_of ''data.bin'')"
  "os_Open site ''README.TXT'' = Some (bytes_of ''README.TXT'')"
  "os_Open site ''style.css'' = Some (bytes_of ''style.css'')"
  "os_Open site ''small.css'' = Some (bytes_of ''small.css'')"
  by (simp_all add: site_def site_files_def file_entry_def dir_entry_def)

lemma derived_extension_examples:
  "derived_extension ''data.bin'' = ''bin''"
  "derived_extension ''README.TXT'' = ''TXT''"
  "derived_extension ''style.css'' = ''css''"
  "derived_extension ''small.css'' = ''css''"
  by (simp_all add: derived_extension_def)

lemma accept_gzip: "\<exists>pre post. ''deflate, gzip'' = pre @ ''gzip'' @ post"
proof -
  have "''deflate, gzip'' = ''deflate, '' @ ''gzip'' @ []" by simp
  then show ?thesis by blast
qed

subsection \<open>Resolution of directories\<close>

lemma find_index_indexFiles:
  "find_index w p indexFiles =
     (if qualifies w (p @ ''/index.html'')
      then Some (p @ ''/index.html'', the (os_Stat w (p @ ''/index.html'')))
      else if qualifies w (p @ ''/index.xhtml'')
      then Some (p @ ''/index.xhtml'', the (os_Stat w (p @ ''/index.xhtml'')))
      else None)"
  by (simp add: indexFiles_def qualifies_def Let_def split: option.splits)

lemma resolve_on_directory:
  assumes "resolves_to_directory w req p"
  shows "resolve w req listDir =
     (if p \<noteq> ''.'' \<and> last (rq_path req) \<noteq> CHR ''/''
      then Inl (Response
             \<lparr>rs_status = 301,
              rs_header = [''Location'' \<mapsto> Str (''/'' @ p @ ''/'')],
              rs_body = NoBody\<rparr>)
      else (case find_index w p indexFiles of
              None \<Rightarrow>
                if listDir then Inl (showListing w p)
                else Inl (Response (http_Error ''File not found'' 404))
            | Some found \<Rightarrow> Inr found))"
proof -
  from assms obtain st where st: "os_Stat w p = Some st" "fi_is_dir st"
    by (auto simp add: resolves_to_directory_def split: option.splits)
  from assms have m: "(rq_method req \<noteq> ''GET'' \<and> rq_method req \<noteq> ''HEAD'') = False"
    and n: "rq_path req \<noteq> []"
    and p: "filepath_Clean (tl (rq_path req)) = p"
    and h: "\<not> isHiddenPath p"
    by (auto simp add: resolves_to_directory_def)
  show ?thesis
    unfolding resolve_def Let_def p m
    using n h st by simp
qed

lemma requestHandler_on_directory:
  assumes "resolves_to_directory w req p"
      and "p = ''.'' \<or> last (rq_path req) = CHR ''/''"
  shows "requestHandler w req listDir =
     (if qualifies w (p @ ''/index.html'')
      then serve_file w req (p @ ''/index.html'') (the (os_Stat w (p @ ''/index.html'')))
      else if qualifies w (p @ ''/index.xhtml'')
      then serve_file w req (p @ ''/index.xhtml'') (the (os_Stat w (p @ ''/index.xhtml'')))
      else if listDir then showListing w p
      else Response (http_Error ''File not found'' 404))"
proof -
  from assms(2) have nr: "(p \<noteq> ''.'' \<and> last (rq_path req) \<noteq> CHR ''/'') = False"
    by blast
  show ?thesis
    unfolding requestHandler_def resolve_on_directory [OF assms(1)] find_index_indexFiles nr
    by simp
qed

subsection \<open>What each part of the handler can answer\<close>

lemma http_Error_fields:
  "rs_status (http_Error msg code) = code"
  "rs_body (http_Error msg code) = Text (msg @ [CHR 0x0A])"
  by (simp_all add: http_Error_def)

lemma serve_file_answers:
  assumes "serve_file w req path stat = out"
  shows "\<exists>r. out = Response r \<and> rs_status r \<in> {200, 304, 404} \<and>
             (\<forall>t rows. rs_body r \<noteq> ListingPage t rows)"
proof (cases "os_Open w path")
  case None
  with assms show ?thesis
    by (auto simp add: serve_file_unopened http_Error_fields)
next
  case (Some content)
  with assms show ?thesis
    by (auto simp add: serve_file_opened)
qed

lemma showListing_answers:
  assumes "showListing w path = Response r"
  shows "rs_status r \<in> {200, 404}"
  using assms
  by (auto simp add: showListing_def http_Error_fields split: option.splits if_splits)

lemma find_index_stats:
  "find_index w p cands = Some (q, st) \<Longrightarrow> os_Stat w q = Some st \<and> \<not> fi_is_dir st"
  by (induction cands) (auto simp add: Let_def split: option.splits if_splits)

lemma site_directories:
  "resolves_to_directory site (http_request ''GET'' ''/docs'' hs) ''docs''"
  "resolves_to_directory site (http_request ''GET'' ''/docs/'' hs) ''docs''"
  "resolves_to_directory site (http_request ''GET'' ''/pics/'' hs) ''pics''"
  "resolves_to_directory site (http_request ''GET'' ''/'' hs) ''.''"
  by (simp_all add: resolves_to_directory_def eval_path eval_site)

lemma site_index_candidates:
  "qualifies site ''docs/index.html''"
  "\<not> qualifies site ''pics/index.html''"
  "\<not> qualifies site ''pics/index.xhtml''"
  "os_Stat site ''docs/index.html'' = Some (file_entry ''index.html'' 120 7000000000)"
  "os_Open site ''docs/index.html'' = Some (bytes_of ''docs/index.html'')"
  by (simp_all add: qualifies_def site_def site_files_def file_entry_def dir_entry_def)

subsection \<open>The listing\<close>

lemma render_rows_Some:
  "render_rows files = Some rows \<Longrightarrow>
     (\<forall>f\<in>set files. fi_name f \<noteq> []) \<and>
     rows = map render_row (filter (\<lambda>f. \<not> starts_with_dot (fi_name f)) files)"
proof (induction files arbitrary: rows)
  case Nil
  then show ?case by simp
next
  case (Cons f fs)
  from Cons.prems have n: "fi_name f \<noteq> []"
    by (simp split: if_splits)
  with Cons.prems obtain rs where rs: "render_rows fs = Some rs"
    and rows: "rows = (if fi_name f ! 0 \<noteq> CHR ''.'' then render_row f # rs else rs)"
    by (auto split: option.splits)
  from n have "fi_name f ! 0 \<noteq> CHR ''.'' \<longleftrightarrow> \<not> starts_with_dot (fi_name f)"
    by (simp add: starts_with_dot_def hd_conv_nth)
  with Cons.IH [OF rs] n rows show ?case
    by simp
qed

lemma render_row_href_dot:
  "fi_name f \<noteq> [] \<Longrightarrow> starts_with_dot (row_href (render_row f)) = starts_with_dot (fi_name f)"
  "fi_name f \<noteq> [] \<Longrightarrow> starts_with_dot (row_text (render_row f)) = starts_with_dot (fi_name f)"
  by (simp_all add: render_row_def starts_with_dot_def)

lemma count_visible_rows:
  assumes "\<forall>g\<in>set files. fi_name g \<noteq> []"
      and "fi_name f \<noteq> []"
      and "\<not> starts_with_dot (fi_name f)"
  shows "count_list (map render_row (filter (\<lambda>g. \<not> starts_with_dot (fi_name g)) files))
           (render_row f)
         = count_list (map render_row files) (render_row f)"
  using assms(1)
proof (induction files)
  case Nil
  show ?case by simp
next
  case (Cons g gs)
  then have n: "fi_name g \<noteq> []" and rest: "\<forall>g\<in>set gs. fi_name g \<noteq> []"
    by simp_all
  show ?case
  proof (cases "starts_with_dot (fi_name g)")
    case True
    have "render_row g \<noteq> render_row f"
    proof
      assume "render_row g = render_row f"
      then have "starts_with_dot (row_href (render_row g)) =
          starts_with_dot (row_href (render_row f))"
        by simp
      with n assms(2,3) True show False
        by (simp add: render_row_href_dot)
    qed
    with True Cons.IH [OF rest] show ?thesis by simp
  next
    case False
    with Cons.IH [OF rest] show ?thesis by simp
  qed
qed

lemma render_row_name:
  assumes "render_row g = render_row f"
  shows "fi_name g = fi_name f"
proof -
  from assms have "row_size (render_row g) = row_size (render_row f)"
    and h: "row_href (render_row g) = row_href (render_row f)"
    by simp_all
  then have "fi_is_dir g = fi_is_dir f"
    by (simp add: render_row_def split: if_splits)
  with h show ?thesis
    by (simp add: render_row_def split: if_splits)
qed

lemma count_row_distinct_names:
  assumes "distinct (map fi_name files)" and "f \<in> set files"
  shows "count_list (map render_row files) (render_row f) = 1"
  using assms
proof (induction files)
  case Nil
  then show ?case by simp
next
  case (Cons g gs)
  from Cons.prems(1) have fresh: "fi_name g \<notin> fi_name ` set gs"
    and d: "distinct (map fi_name gs)"
    by simp_all
  show ?case
  proof (cases "f \<in> set gs")
    case True
    with fresh have "fi_name g \<noteq> fi_name f" by auto
    then have "render_row g \<noteq> render_row f"
      using render_row_name by blast
    with Cons.IH [OF d True] show ?thesis by simp
  next
    case False
    with Cons.prems(2) have fg: "f = g" by simp
    have "render_row g \<notin> set (map render_row gs)"
    proof
      assume "render_row g \<in> set (map render_row gs)"
      then obtain h where h: "h \<in> set gs" "render_row h = render_row g" by auto
      from render_row_name [OF h(2)] h(1) have "fi_name g \<in> fi_name ` set gs"
        by (metis imageI)
      with fresh show False by simp
    qed
    then have "count_list (map render_row gs) (render_row g) = 0"
      by (simp only: count_list_0_iff not_False_eq_True)
    with fg show ?thesis by simp
  qed
qed

lemma showListing_page:
  assumes "showListing w path = Response r"
      and "rs_body r = ListingPage t rows"
  shows "t = path \<and> (\<exists>files. ioutil_ReadDir w path = Some files \<and> render_rows files = Some rows)"
  using assms
  by (auto simp add: showListing_def template_Execute_def http_Error_fields
      split: option.splits if_splits)

lemma requestHandler_page:
  assumes "requestHandler w req listDir = Response r"
      and "rs_body r = ListingPage t rows"
  shows "showListing w t = Response r"
proof (cases "resolve w req listDir")
  case (Inr found)
  with assms(1) have "serve_file w req (fst found) (snd found) = Response r"
    by (simp add: requestHandler_def split: prod.splits)
  from serve_file_answers [OF this] assms(2) show ?thesis by simp
next
  case (Inl o1)
  with assms(1) have o1: "o1 = Response r"
    by (simp add: requestHandler_def)
  from Inl have "showListing w (filepath_Clean (tl (rq_path req))) = Response r"
    unfolding resolve_def Let_def o1
    using assms(2)
    by (auto simp add: http_Error_fields split: if_splits option.splits)
  with assms(2) showListing_page show ?thesis by metis
qed

lemma site_pics_listing:
  "requestHandler site (http_request m ''/pics/'' []) True = showListing site ''pics''"
  if "m = ''GET'' \<or> m = ''HEAD''"
proof -
  have d: "resolves_to_directory site (http_request m ''/pics/'' []) ''pics''"
    using that by (auto simp add: resolves_to_directory_def eval_path eval_site)
  have l: "''pics'' = ''.'' \<or> last (rq_path (http_request m ''/pics/'' [])) = CHR ''/''"
    by (simp add: http_request_def)
  show ?thesis
    using requestHandler_on_directory [OF d l, of True] site_index_candidates(2,3)
    by simp
qed

lemma requestHandler_statuses:
  assumes "requestHandler w req listDir = Response r"
  shows "rs_status r \<in> {200, 301, 304, 404, 405}"
proof (cases "resolve w req listDir")
  case (Inr found)
  with assms have "serve_file w req (fst found) (snd found) = Response r"
    by (simp add: requestHandler_def split: prod.splits)
  from serve_file_answers [OF this] show ?thesis by auto
next
  case (Inl o1)
  with assms have o1: "o1 = Response r"
    by (simp add: requestHandler_def)
  from Inl show ?thesis
    unfolding resolve_def Let_def o1
    by (auto simp add: http_Error_fields dest: showListing_answers
        split: if_splits option.splits)
qed

lemma requestHandler_listing:
  assumes "listing_request w req p"
  shows "requestHandler w req True = showListing w p"
proof -
  from assms have d: "resolves_to_directory w req p"
    and l: "p = ''.'' \<or> last (rq_path req) = CHR ''/''"
    and q: "\<not> qualifies w (p @ ''/index.html'')" "\<not> qualifies w (p @ ''/index.xhtml'')"
    by (simp_all add: listing_request_def)
  from requestHandler_on_directory [OF d l, of True] q show ?thesis
    by simp
qed

subsection \<open>Hidden paths and segments\<close>

lemma segments_nonempty: "segments p \<noteq> []"
  by (cases p) simp_all

lemma first_segment_dot:
  "starts_with_dot (hd (segments p)) \<longleftrightarrow> p \<noteq> [] \<and> hd p = CHR ''.''"
  by (cases p) (simp_all add: starts_with_dot_def)

lemma index_slash_dot:
  "index_from p ''/.'' i \<noteq> - 1 \<longleftrightarrow> (\<exists>s\<in>set (tl (segments p)). starts_with_dot s)"
proof (induction p arbitrary: i)
  case Nil
  show ?case by simp
next
  case (Cons c cs)
  have pre: "prefix ''/.'' (c # cs) \<longleftrightarrow> c = CHR ''/'' \<and> cs \<noteq> [] \<and> hd cs = CHR ''.''"
    by (cases cs) auto
  have split: "(\<exists>s\<in>set (segments cs). starts_with_dot s) \<longleftrightarrow>
      starts_with_dot (hd (segments cs)) \<or> (\<exists>s\<in>set (tl (segments cs)). starts_with_dot s)"
    using segments_nonempty [of cs] by (cases "segments cs") auto
  show ?case
  proof (cases "c = CHR ''/''")
    case True
    with pre split Cons.IH [of "Suc i"] show ?thesis
      by (auto simp add: first_segment_dot)
  next
    case False
    with pre Cons.IH [of "Suc i"] show ?thesis
      by simp
  qed
qed

lemma isHiddenPath_iff:
  "isHiddenPath p \<longleftrightarrow> p \<noteq> ''.'' \<and> (\<exists>s\<in>set (segments p). starts_with_dot s)"
proof -
  have split: "(\<exists>s\<in>set (segments p). starts_with_dot s) \<longleftrightarrow>
      starts_with_dot (hd (segments p)) \<or> (\<exists>s\<in>set (tl (segments p)). starts_with_dot s)"
    using segments_nonempty [of p] by (cases "segments p") auto
  have lead: "1 < length p \<and> p ! 0 = CHR ''.'' \<longleftrightarrow> p \<noteq> ''.'' \<and> p \<noteq> [] \<and> hd p = CHR ''.''"
    by (cases p) auto
  have root: "\<not> (\<exists>s\<in>set (tl (segments ''.'')). starts_with_dot s)"
    by simp
  show ?thesis
    unfolding isHiddenPath_def strings_Index_def index_slash_dot split first_segment_dot lead
    using root by blast
qed

lemma site_dot_requests:
  "resolve site (http_request ''GET'' ''/.git/../a.txt'' []) False =
     Inr (''a.txt'', file_entry ''a.txt'' 5 20000000000)"
  "resolve site (http_request ''GET'' ''/.'' []) False =
     Inr (''./index.html'', file_entry ''index.html'' 300 7000000000)"
  "resolve site (http_request ''GET'' ''//etc/passwd'' []) False =
     Inr (''/etc/passwd'', file_entry ''passwd'' 1500 20000000000)"
  by (simp_all add: resolve_def eval_path eval_site)

lemma site_plain_get:
  assumes "resolve site (http_request ''GET'' u []) False = Inr (p, st)"
      and "os_Open site p = Some content"
  shows "requestHandler site (http_request ''GET'' u []) False =
     Response \<lparr>rs_status = 200, rs_header = file_headers p st, rs_body = FileBytes content\<rparr>"
proof -
  have "\<not> not_modified_since site (http_request ''GET'' u []) st"
    by (simp add: not_modified_since_def eval_site)
  moreover have "rq_method (http_request ''GET'' u []) \<noteq> ''HEAD''"
    by (simp add: http_request_def)
  moreover have "\<not> compression_applies (http_request ''GET'' u []) p st"
    by (simp add: compression_applies_def http_request_def header_Get_def)
  ultimately show ?thesis
    using assms by (simp add: requestHandler_serves serve_file_opened)
qed

subsection \<open>Cleaning a relative path\<close>

lemma clean_loop_relative:
  "\<not> rooted \<Longrightarrow> out = [] \<or> hd out \<noteq> CHR ''/'' \<Longrightarrow>
   clean_loop rooted rest out dotdot = [] \<or> hd (clean_loop rooted rest out dotdot) \<noteq> CHR ''/''"
proof (induction rooted rest out dotdot rule: clean_loop.induct)
  case (1 rooted out dotdot)
  then show ?case by simp
next
  case (2 rooted c cs out dotdot)
  note nr = "2.prems"(1)
  have tk: "take n out = [] \<or> hd (take n out) \<noteq> CHR ''/''" for n
    using "2.prems"(2) by (cases out; cases n) auto
  have ap: "(out @ xs) = [] \<or> hd (out @ xs) \<noteq> CHR ''/''"
    if "xs = [] \<or> hd xs \<noteq> CHR ''/''" for xs
    using "2.prems"(2) that by (cases out) auto
  show ?case
  proof (cases "c = CHR ''/''")
    case True
    with "2.IH"(1) [OF True nr "2.prems"(2)] show ?thesis by simp
  next
    case c1: False
    show ?thesis
    proof (cases "c = CHR ''.'' \<and> (cs = [] \<or> hd cs = CHR ''/'')")
      case True
      with c1 "2.IH"(2) [OF c1 True nr "2.prems"(2)] show ?thesis by simp
    next
      case c2: False
      show ?thesis
      proof (cases "c = CHR ''.'' \<and> hd cs = CHR ''.'' \<and> (tl cs = [] \<or> hd (tl cs) = CHR ''/'')")
        case c3: True
        show ?thesis
        proof (cases "dotdot < length out")
          case True
          with c1 c2 c3 "2.IH"(3) [OF c1 c2 c3 True nr tk] show ?thesis by simp
        next
          case c4: False
          let ?out' = "(if 0 < length out then out @ ''/'' else out) @ ''..''"
          have o: "?out' = [] \<or> hd ?out' \<noteq> CHR ''/''"
            using "2.prems"(2) by (cases out) auto
          have e: "clean_loop rooted (c # cs) out dotdot =
              clean_loop rooted (tl cs) ?out' (length ?out')"
            by (subst clean_loop.simps, subst if_not_P [OF c1], subst if_not_P [OF c2],
                subst if_P [OF c3], subst if_not_P [OF c4], subst if_P [OF nr])
              (simp add: Let_def)
          from "2.IH"(4) [OF c1 c2 c3 c4 nr refl nr o] e
          show ?thesis by simp
        qed
      next
        case c3: False
        let ?out' = "(if rooted \<and> length out \<noteq> 1 \<or> \<not> rooted \<and> length out \<noteq> 0
                     then out @ ''/'' else out)"
        have o: "?out' @ c # takeWhile (\<lambda>x. x \<noteq> CHR ''/'') cs = [] \<or>
            hd (?out' @ c # takeWhile (\<lambda>x. x \<noteq> CHR ''/'') cs) \<noteq> CHR ''/''"
          using "2.prems"(2) c1 nr by (cases out) auto
        have e: "clean_loop rooted (c # cs) out dotdot =
            clean_loop rooted (dropWhile (\<lambda>x. x \<noteq> CHR ''/'') cs)
              (?out' @ c # takeWhile (\<lambda>x. x \<noteq> CHR ''/'') cs) dotdot"
          by (subst clean_loop.simps, subst if_not_P [OF c1], subst if_not_P [OF c2],
              subst if_not_P [OF c3])
            (simp add: Let_def)
        from "2.IH"(6) [OF c1 c2 c3 refl nr o] e
        show ?thesis by simp
      qed
    qed
  qed
qed

lemma filepath_Clean_relative:
  assumes "s = [] \<or> hd s \<noteq> CHR ''/''"
  shows "hd (filepath_Clean s) \<noteq> CHR ''/''"
proof (cases "s = []")
  case True
  then show ?thesis by (simp add: filepath_Clean_def)
next
  case False
  with assms have h: "hd s \<noteq> CHR ''/''" by blast
  have "clean_loop False s [] 0 = [] \<or> hd (clean_loop False s [] 0) \<noteq> CHR ''/''"
    by (rule clean_loop_relative) simp_all
  with False h show ?thesis
    by (auto simp add: filepath_Clean_def Let_def)
qed

lemma segments_append_sep: "segments (a @ CHR ''/'' # b) = segments a @ segments b"
proof (induction a)
  case Nil
  show ?case by simp
next
  case (Cons c cs)
  have "segments cs \<noteq> []"
    by (rule segments_nonempty)
  then obtain s ss where "segments cs = s # ss"
    by (cases "segments cs") auto
  with Cons.IH show ?case
    by simp
qed

lemma unhidden_no_dotdot:
  assumes "\<not> isHiddenPath p"
  shows "''..'' \<notin> set (segments p)"
proof (cases "p = ''.''")
  case True
  then show ?thesis by simp
next
  case False
  with assms have "\<forall>s\<in>set (segments p). \<not> starts_with_dot s"
    by (simp add: isHiddenPath_iff)
  moreover have "starts_with_dot ''..''"
    by (simp add: starts_with_dot_def)
  ultimately show ?thesis by blast
qed

text \<open>
  What the handler does keep inside the root: when the request path without its first
  character does not begin with the separator, the path that is stat'ed and listed,
  the index candidates and the path that is opened are all relative and free of
  \<^verbatim>\<open>..\<close> segments.
\<close>

lemma relative_remainder_confined:
  assumes "rq_path req \<noteq> []"
      and "\<not> prefix ''/'' (tl (rq_path req))"
      and "p = filepath_Clean (tl (rq_path req))"
      and "\<not> isHiddenPath p"
  shows "confined p"
    and "\<forall>i\<in>set indexFiles. confined (p @ ''/'' @ i)"
    and "resolve w req listDir = Inr (q, st) \<Longrightarrow> confined q"
proof -
  from assms(2) have "tl (rq_path req) = [] \<or> hd (tl (rq_path req)) \<noteq> CHR ''/''"
    by (cases "tl (rq_path req)") auto
  from filepath_Clean_relative [OF this] assms(3)
  have rel: "hd p \<noteq> CHR ''/''" by simp
  have ne: "p \<noteq> []"
    using assms(3) by (auto simp add: filepath_Clean_def Let_def)
  from rel ne have np: "\<not> prefix ''/'' p"
    by (cases p) auto
  from unhidden_no_dotdot [OF assms(4)] np show c: "confined p"
    by (simp add: confined_def)
  have idx: "confined (p @ ''/'' @ i)" if "i \<in> set indexFiles" for i
  proof -
    from that have i: "segments i = [i]" "i \<noteq> ''..''"
      by (auto simp add: indexFiles_def)
    have seg: "segments (p @ ''/'' @ i) = segments p @ [i]"
      using segments_append_sep [of p i] i(1) by simp
    have pre: "\<not> prefix ''/'' (p @ ''/'' @ i)"
      using np ne by (cases p) simp_all
    from c i(2) pre show ?thesis
      unfolding confined_def seg by simp
  qed
  then show "\<forall>i\<in>set indexFiles. confined (p @ ''/'' @ i)"
    by blast
  assume r: "resolve w req listDir = Inr (q, st)"
  have fi: "find_index w p cands = Some (q', st') \<Longrightarrow> \<exists>i\<in>set cands. q' = p @ ''/'' @ i"
    for cands q' st'
    by (induction cands) (auto simp add: Let_def split: option.splits if_splits)
  from r have "q = p \<or> find_index w p indexFiles = Some (q, st)"
    unfolding resolve_def Let_def assms(3) [symmetric]
    by (auto split: if_splits option.splits)
  then have "q = p \<or> (\<exists>i\<in>set indexFiles. q = p @ ''/'' @ i)"
    using fi by blast
  with c idx show "confined q"
    by blast
qed

subsection \<open>Dot segments that cleaning keeps\<close>

lemma first_segment_takeWhile: "hd (segments s) = takeWhile (\<lambda>x. x \<noteq> CHR ''/'') s"
  by (induction s) simp_all

lemma later_segments_dropWhile:
  "tl (segments s) = tl (segments (dropWhile (\<lambda>x. x \<noteq> CHR ''/'') s))"
  by (induction s) simp_all

lemma segments_split:
  "segments s = takeWhile (\<lambda>x. x \<noteq> CHR ''/'') s #
                tl (segments (dropWhile (\<lambda>x. x \<noteq> CHR ''/'') s))"
proof -
  have "segments s = hd (segments s) # tl (segments s)"
    using segments_nonempty [of s] by simp
  then show ?thesis
    using first_segment_takeWhile [of s] later_segments_dropWhile [of s] by simp
qed

lemma segments_at_separator:
  assumes "r = [] \<or> hd r = CHR ''/''"
  shows "segments r = [] # tl (segments r)"
proof -
  from assms have "takeWhile (\<lambda>x. x \<noteq> CHR ''/'') r = []"
    by (cases r) auto
  with first_segment_takeWhile [of r] segments_nonempty [of r] show ?thesis
    by (cases "segments r") auto
qed

lemma isHiddenPath_append:
  assumes "isHiddenPath out"
  shows "isHiddenPath (out @ xs)"
proof -
  from assms have "1 < length out \<and> out ! 0 = CHR ''.'' \<or> (\<exists>pre post. out = pre @ ''/.'' @ post)"
    by (simp add: isHiddenPath_def strings_Index_def index_from_found)
  then show ?thesis
  proof
    assume "1 < length out \<and> out ! 0 = CHR ''.''"
    then have "1 < length (out @ xs) \<and> (out @ xs) ! 0 = CHR ''.''"
      by (cases out) auto
    then show ?thesis by (simp add: isHiddenPath_def)
  next
    assume "\<exists>pre post. out = pre @ ''/.'' @ post"
    then obtain pre post where "out = pre @ ''/.'' @ post" by blast
    then have "out @ xs = pre @ ''/.'' @ (post @ xs)" by simp
    then have "\<exists>pre post. out @ xs = pre @ ''/.'' @ post" by blast
    then show ?thesis
      by (simp add: isHiddenPath_def strings_Index_def index_from_found)
  qed
qed

lemma segments_at_separator_set:
  assumes "r = [] \<or> hd r = CHR ''/''" and "seg \<noteq> []" and "seg \<in> set (segments r)"
  shows "seg \<in> set (tl (segments r))"
proof -
  from segments_at_separator [OF assms(1)] obtain t where t: "segments r = [] # t"
    by blast
  with assms(2,3) show ?thesis by simp
qed

lemma later_segments_subset: "set (tl (segments s)) \<subseteq> set (segments s)"
  using segments_nonempty [of s] by (cases "segments s") auto

lemma segment_of_remainder:
  assumes "r = [] \<or> hd r = CHR ''/''"
      and "tl (segments s) = tl (segments r)"
      and "seg \<noteq> []"
      and "seg \<in> set (segments r)"
  shows "seg \<in> set (segments s)"
proof -
  from segments_at_separator_set [OF assms(1,3,4)] assms(2)
  have "seg \<in> set (tl (segments s))" by simp
  with later_segments_subset [of s] show ?thesis by blast
qed

lemma clean_loop_step_plain:
  assumes "c \<noteq> CHR ''/''"
      and "\<not> (c = CHR ''.'' \<and> (cs = [] \<or> hd cs = CHR ''/''))"
      and "\<not> (c = CHR ''.'' \<and> hd cs = CHR ''.'' \<and> (tl cs = [] \<or> hd (tl cs) = CHR ''/''))"
  shows "clean_loop rooted (c # cs) out dotdot =
     clean_loop rooted (dropWhile (\<lambda>x. x \<noteq> CHR ''/'') cs)
       ((if rooted \<and> length out \<noteq> 1 \<or> \<not> rooted \<and> length out \<noteq> 0
         then out @ ''/'' else out) @ c # takeWhile (\<lambda>x. x \<noteq> CHR ''/'') cs) dotdot"
  by (subst clean_loop.simps, subst if_not_P [OF assms(1)], subst if_not_P [OF assms(2)],
      subst if_not_P [OF assms(3)])
    (simp add: Let_def)

lemma dotdot_first_segment:
  assumes "c = CHR ''.'' \<and> hd cs = CHR ''.'' \<and> (tl cs = [] \<or> hd (tl cs) = CHR ''/'')"
      and "\<not> (c = CHR ''.'' \<and> (cs = [] \<or> hd cs = CHR ''/''))"
  shows "''..'' \<in> set (segments (c # cs))"
proof -
  from assms obtain r where cs: "cs = CHR ''.'' # r" and r: "r = [] \<or> hd r = CHR ''/''"
    by (cases cs) auto
  from r have "takeWhile (\<lambda>x. x \<noteq> CHR ''/'') r = []"
    by (cases r) auto
  with assms(1) cs have "takeWhile (\<lambda>x. x \<noteq> CHR ''/'') (c # cs) = ''..''"
    by simp
  then have "hd (segments (c # cs)) = ''..''"
    by (simp only: first_segment_takeWhile)
  moreover have "hd (segments (c # cs)) \<in> set (segments (c # cs))"
    by (rule hd_in_set [OF segments_nonempty])
  ultimately show ?thesis
    by (simp only:)
qed

lemma remainder_at_separator:
  "dropWhile (\<lambda>x. x \<noteq> CHR ''/'') cs = [] \<or> hd (dropWhile (\<lambda>x. x \<noteq> CHR ''/'') cs) = CHR ''/''"
  by (induction cs) simp_all

lemma clean_loop_stays_hidden:
  "''..'' \<notin> set (segments rest) \<Longrightarrow> isHiddenPath out \<Longrightarrow>
   isHiddenPath (clean_loop rooted rest out dotdot)"
proof (induction rooted rest out dotdot rule: clean_loop.induct)
  case (1 rooted out dotdot)
  then show ?case by simp
next
  case (2 rooted c cs out dotdot)
  note nodd = "2.prems"(1) and hid = "2.prems"(2)
  have dd: "''..'' \<noteq> []" by simp
  show ?case
  proof (cases "c = CHR ''/''")
    case True
    with nodd have "''..'' \<notin> set (segments cs)" by simp
    from "2.IH"(1) [OF True this hid] True show ?thesis by simp
  next
    case c1: False
    show ?thesis
    proof (cases "c = CHR ''.'' \<and> (cs = [] \<or> hd cs = CHR ''/'')")
      case True
      then have sep: "cs = [] \<or> hd cs = CHR ''/''" by simp
      have tls: "tl (segments (c # cs)) = tl (segments cs)"
        using c1 by simp
      have "''..'' \<notin> set (segments cs)"
        using segment_of_remainder [OF sep tls dd] nodd by blast
      from "2.IH"(2) [OF c1 True this hid] c1 True show ?thesis by simp
    next
      case c2: False
      have c3: "\<not> (c = CHR ''.'' \<and> hd cs = CHR ''.'' \<and> (tl cs = [] \<or> hd (tl cs) = CHR ''/''))"
        using dotdot_first_segment [OF _ c2] nodd by blast
      let ?rest = "dropWhile (\<lambda>x. x \<noteq> CHR ''/'') cs"
      let ?out = "(if rooted \<and> length out \<noteq> 1 \<or> \<not> rooted \<and> length out \<noteq> 0
                   then out @ ''/'' else out) @ c # takeWhile (\<lambda>x. x \<noteq> CHR ''/'') cs"
      have tls: "tl (segments (c # cs)) = tl (segments ?rest)"
        using later_segments_dropWhile [of "c # cs"] c1 by simp
      have n': "''..'' \<notin> set (segments ?rest)"
        using segment_of_remainder [OF remainder_at_separator tls dd] nodd by blast
      have h': "isHiddenPath ?out"
        using isHiddenPath_append [OF hid] by simp
      from "2.IH"(6) [OF c1 c2 c3 refl n' h'] clean_loop_step_plain [OF c1 c2 c3]
      show ?thesis by simp
    qed
  qed
qed

lemma isHiddenPath_infix: "isHiddenPath (pre @ CHR ''/'' # CHR ''.'' # post)"
proof -
  have "pre @ CHR ''/'' # CHR ''.'' # post = pre @ ''/.'' @ post" by simp
  then have "\<exists>a b. pre @ CHR ''/'' # CHR ''.'' # post = a @ ''/.'' @ b" by blast
  then show ?thesis
    by (simp only: isHiddenPath_def strings_Index_def index_from_found simp_thms)
qed

lemma isHiddenPath_lead: "isHiddenPath (CHR ''.'' # x # xs)"
  by (simp add: isHiddenPath_def)

lemma dotfile_shape:
  assumes "dotfile seg"
  obtains x xs where "seg = CHR ''.'' # x # xs"
proof -
  from assms obtain t where t: "seg = CHR ''.'' # t" and "seg \<noteq> ''.''"
    by (cases seg) (auto simp add: dotfile_def starts_with_dot_def)
  then obtain x xs where "t = x # xs"
    by (cases t) auto
  with t that show thesis by blast
qed

lemma clean_loop_hides_dotfile:
  "''..'' \<notin> set (segments rest) \<Longrightarrow> \<exists>seg\<in>set (segments rest). dotfile seg \<Longrightarrow>
   (rooted \<longrightarrow> out \<noteq> [] \<and> hd out = CHR ''/'') \<Longrightarrow>
   isHiddenPath (clean_loop rooted rest out dotdot)"
proof (induction rooted rest out dotdot rule: clean_loop.induct)
  case (1 rooted out dotdot)
  then show ?case by (simp add: dotfile_def starts_with_dot_def)
next
  case (2 rooted c cs out dotdot)
  note nodd = "2.prems"(1) and inv = "2.prems"(3)
  from "2.prems"(2) obtain seg where seg: "seg \<in> set (segments (c # cs))" "dotfile seg"
    by blast
  from seg(2) have ne: "seg \<noteq> []"
    by (auto simp add: dotfile_def starts_with_dot_def)
  have dd: "''..'' \<noteq> []" by simp
  have first: "hd (segments (c # cs)) = takeWhile (\<lambda>x. x \<noteq> CHR ''/'') (c # cs)"
    by (rule first_segment_takeWhile)
  have parts: "seg = hd (segments (c # cs)) \<or> seg \<in> set (tl (segments (c # cs)))"
    using seg(1) segments_nonempty [of "c # cs"] by (cases "segments (c # cs)") auto
  show ?case
  proof (cases "c = CHR ''/''")
    case True
    with nodd have n': "''..'' \<notin> set (segments cs)" by simp
    from True seg ne have "\<exists>seg\<in>set (segments cs). dotfile seg" by auto
    from "2.IH"(1) [OF True n' this inv] True show ?thesis by simp
  next
    case c1: False
    show ?thesis
    proof (cases "c = CHR ''.'' \<and> (cs = [] \<or> hd cs = CHR ''/'')")
      case True
      then have sep: "cs = [] \<or> hd cs = CHR ''/''" by simp
      have tls: "tl (segments (c # cs)) = tl (segments cs)"
        using c1 by simp
      have n': "''..'' \<notin> set (segments cs)"
        using segment_of_remainder [OF sep tls dd] nodd by blast
      from sep have "takeWhile (\<lambda>x. x \<noteq> CHR ''/'') cs = []"
        by (cases cs) auto
      with True first have "hd (segments (c # cs)) = ''.''"
        by simp
      with parts seg(2) have "seg \<in> set (tl (segments (c # cs)))"
        by (auto simp add: dotfile_def)
      with tls later_segments_subset [of cs] seg(2)
      have "\<exists>seg\<in>set (segments cs). dotfile seg" by auto
      from "2.IH"(2) [OF c1 True n' this inv] c1 True show ?thesis by simp
    next
      case c2: False
      have c3: "\<not> (c = CHR ''.'' \<and> hd cs = CHR ''.'' \<and> (tl cs = [] \<or> hd (tl cs) = CHR ''/''))"
        using dotdot_first_segment [OF _ c2] nodd by blast
      let ?rest = "dropWhile (\<lambda>x. x \<noteq> CHR ''/'') cs"
      let ?elem = "c # takeWhile (\<lambda>x. x \<noteq> CHR ''/'') cs"
      let ?out' = "(if rooted \<and> length out \<noteq> 1 \<or> \<not> rooted \<and> length out \<noteq> 0
                   then out @ ''/'' else out)"
      have tls: "tl (segments (c # cs)) = tl (segments ?rest)"
        using later_segments_dropWhile [of "c # cs"] c1 by simp
      have n': "''..'' \<notin> set (segments ?rest)"
        using segment_of_remainder [OF remainder_at_separator tls dd] nodd by blast
      have step: "clean_loop rooted (c # cs) out dotdot =
          clean_loop rooted ?rest (?out' @ ?elem) dotdot"
        by (rule clean_loop_step_plain [OF c1 c2 c3])
      from first c1 have felem: "hd (segments (c # cs)) = ?elem" by simp
      from parts show ?thesis
      proof
        assume "seg = hd (segments (c # cs))"
        with felem seg(2) have "dotfile ?elem" by simp
        then obtain x xs where e: "?elem = CHR ''.'' # x # xs"
          by (rule dotfile_shape)
        have "isHiddenPath (?out' @ ?elem)"
        proof (cases "rooted \<and> length out \<noteq> 1 \<or> \<not> rooted \<and> length out \<noteq> 0")
          case True
          then have "?out' @ ?elem = out @ CHR ''/'' # CHR ''.'' # x # xs"
            using e by simp
          then show ?thesis
            using isHiddenPath_infix [of out "x # xs"] by simp
        next
          case False
          show ?thesis
          proof (cases rooted)
            case True
            with False inv have "out = ''/''"
              by (cases out) auto
            with False have "?out' @ ?elem = [] @ CHR ''/'' # CHR ''.'' # x # xs"
              using e by simp
            then show ?thesis
              using isHiddenPath_infix [of "[]" "x # xs"] by simp
          next
            case nr: False
            with False have "out = []" by simp
            with False have "?out' @ ?elem = CHR ''.'' # x # xs"
              using e by simp
            then show ?thesis
              using isHiddenPath_lead [of x xs] by simp
          qed
        qed
        from clean_loop_stays_hidden [OF n' this] step show ?thesis by simp
      next
        assume "seg \<in> set (tl (segments (c # cs)))"
        with tls later_segments_subset [of ?rest] seg(2)
        have ex: "\<exists>seg\<in>set (segments ?rest). dotfile seg" by auto
        have inv': "rooted \<longrightarrow> ?out' @ ?elem \<noteq> [] \<and> hd (?out' @ ?elem) = CHR ''/''"
          using inv by (cases out) auto
        from "2.IH"(6) [OF c1 c2 c3 refl n' ex inv'] step show ?thesis by simp
      qed
    qed
  qed
qed

lemma isHiddenPath_nonempty: "isHiddenPath p \<Longrightarrow> p \<noteq> []"
  by (auto simp add: isHiddenPath_def strings_Index_def)

lemma filepath_Clean_hides_dotfile:
  assumes "''..'' \<notin> set (segments s)"
      and "\<exists>seg\<in>set (segments s). dotfile seg"
  shows "isHiddenPath (filepath_Clean s)"
proof -
  from assms(2) have ne: "s \<noteq> []"
    by (auto simp add: dotfile_def starts_with_dot_def)
  show ?thesis
  proof (cases "hd s = CHR ''/''")
    case True
    with ne obtain t where s: "s = CHR ''/'' # t"
      by (cases s) auto
    with assms have n': "''..'' \<notin> set (segments t)"
      and ex: "\<exists>seg\<in>set (segments t). dotfile seg"
      by (auto simp add: dotfile_def starts_with_dot_def)
    have "isHiddenPath (clean_loop True t ''/'' 1)"
      by (rule clean_loop_hides_dotfile [OF n' ex]) simp
    with isHiddenPath_nonempty [OF this] s show ?thesis
      by (simp add: filepath_Clean_def)
  next
    case False
    have "isHiddenPath (clean_loop False s [] 0)"
      by (rule clean_loop_hides_dotfile [OF assms]) simp
    with isHiddenPath_nonempty [OF this] False ne show ?thesis
      by (simp add: filepath_Clean_def)
  qed
qed

section \<open>The claims\<close>

text \<open>
  C1, as the claim states it, fails in three ways: a method other than \<^verbatim>\<open>GET\<close> and
  \<^verbatim>\<open>HEAD\<close> is answered 405 before the path is looked at; a dot segment that
  normalization removes does not hide the path; and the root, whose normalized path
  is a single dot, is served.
\<close>

theorem dot_segment_not_always_404_counterexample:
  "list_ex starts_with_dot (segments ''/.env'') \<and>
   requestHandler site (http_request ''POST'' ''/.env'' []) False =
     Response (http_Error ''Method not allowed'' 405) \<and>
   list_ex starts_with_dot (segments ''/.git/../a.txt'') \<and>
   requestHandler site (http_request ''GET'' ''/.git/../a.txt'' []) False =
     Response \<lparr>rs_status = 200,
               rs_header = file_headers ''a.txt'' (file_entry ''a.txt'' 5 20000000000),
               rs_body = FileBytes (bytes_of ''a.txt'')\<rparr> \<and>
   list_ex starts_with_dot (segments ''/.'') \<and>
   list_ex starts_with_dot (segments (filepath_Clean (tl ''/.''))) \<and>
   requestHandler site (http_request ''GET'' ''/.'' []) False =
     Response \<lparr>rs_status = 200,
               rs_header = file_headers ''./index.html'' (file_entry ''index.html'' 300 7000000000),
               rs_body = FileBytes (bytes_of ''./index.html'')\<rparr>"
proof -
  have s: "list_ex starts_with_dot (segments ''/.env'')"
    "list_ex starts_with_dot (segments ''/.git/../a.txt'')"
    "list_ex starts_with_dot (segments ''/.'')"
    "list_ex starts_with_dot (segments (filepath_Clean (tl ''/.'')))"
    by (simp_all add: starts_with_dot_def filepath_Clean_def)
  have a: "requestHandler site (http_request ''POST'' ''/.env'' []) False =
      Response (http_Error ''Method not allowed'' 405)"
    by (simp add: requestHandler_def resolve_def http_request_def)
  have o: "os_Open site ''a.txt'' = Some (bytes_of ''a.txt'')"
    "os_Open site ''./index.html'' = Some (bytes_of ''./index.html'')"
    by (simp_all add: site_def site_files_def file_entry_def dir_entry_def)
  note b = site_plain_get [OF site_dot_requests(1) o(1)]
  note c = site_plain_get [OF site_dot_requests(2) o(2)]
  from s a b c show ?thesis
    by (intro conjI)
qed

text \<open>
  C1, amended. For every \<^verbatim>\<open>GET\<close> or \<^verbatim>\<open>HEAD\<close> request whose normalized path (the
  request path without its first character, cleaned) is not the root and has a segment
  starting with a dot, the response is the 404 error, whatever the filesystem holds
  and whatever the listing flag. In particular this is so for every request path that,
  after its first character, has no \<^verbatim>\<open>..\<close> segment and has a segment starting with a
  dot other than the single dot.
\<close>

theorem hidden_segment_not_found:
  assumes "rq_method req = ''GET'' \<or> rq_method req = ''HEAD''"
      and "rq_path req \<noteq> []"
      and "p = filepath_Clean (tl (rq_path req))"
  shows "(p \<noteq> ''.'' \<and> (\<exists>s\<in>set (segments p). starts_with_dot s) \<longrightarrow>
            requestHandler w req listDir = Response (http_Error ''File not found'' 404)) \<and>
         (''..'' \<notin> set (segments (tl (rq_path req))) \<and>
          (\<exists>s\<in>set (segments (tl (rq_path req))). dotfile s) \<longrightarrow>
            requestHandler w req listDir = Response (http_Error ''File not found'' 404)) \<and>
         rs_status (http_Error ''File not found'' 404) = 404"
proof -
  from assms(1) have m: "(rq_method req \<noteq> ''GET'' \<and> rq_method req \<noteq> ''HEAD'') = False"
    by blast
  have hidden: "requestHandler w req listDir = Response (http_Error ''File not found'' 404)"
    if "isHiddenPath (filepath_Clean (tl (rq_path req)))"
    unfolding requestHandler_def resolve_def Let_def m
    using assms(2) that by simp
  have normalized: "requestHandler w req listDir = Response (http_Error ''File not found'' 404)"
    if "p \<noteq> ''.'' \<and> (\<exists>s\<in>set (segments p). starts_with_dot s)"
    using that assms(3) by (intro hidden) (simp add: isHiddenPath_iff)
  have raw: "requestHandler w req listDir = Response (http_Error ''File not found'' 404)"
    if "''..'' \<notin> set (segments (tl (rq_path req))) \<and>
        (\<exists>s\<in>set (segments (tl (rq_path req))). dotfile s)"
    using that by (intro hidden filepath_Clean_hides_dotfile) simp_all
  from normalized raw show ?thesis
    by (simp add: http_Error_fields)
qed

theorem hidden_segment_not_found_witness:
  "os_Stat site ''secret/.env'' = Some (file_entry ''.env'' 20 20000000000) \<and>
   filepath_Clean (tl ''/secret/.env'') = ''secret/.env'' \<and>
   segments ''secret/.env'' = [''secret'', ''.env''] \<and>
   dotfile ''.env'' \<and>
   requestHandler site (http_request ''GET'' ''/secret/.env'' []) True =
     Response (http_Error ''File not found'' 404)"
proof -
  let ?req = "http_request ''GET'' ''/secret/.env'' []"
  have e: "os_Stat site ''secret/.env'' = Some (file_entry ''.env'' 20 20000000000)"
    by (simp add: site_def site_files_def)
  have m: "rq_method ?req = ''GET'' \<or> rq_method ?req = ''HEAD''"
    and n: "rq_path ?req \<noteq> []"
    by (simp_all add: http_request_def)
  have c: "filepath_Clean (tl ''/secret/.env'') = ''secret/.env''"
    by (simp add: filepath_Clean_def)
  have sg: "segments ''secret/.env'' = [''secret'', ''.env'']"
    by simp
  have d: "dotfile ''.env''"
    by (simp add: dotfile_def starts_with_dot_def)
  have r: "''..'' \<notin> set (segments (tl (rq_path ?req))) \<and>
      (\<exists>s\<in>set (segments (tl (rq_path ?req))). dotfile s)"
    using d by (simp add: http_request_def)
  from conjunct1 [OF conjunct2 [OF hidden_segment_not_found [OF m n refl, of site True]]] r
  have "requestHandler site ?req True = Response (http_Error ''File not found'' 404)"
    by (rule mp)
  with e c sg d show ?thesis
    by (intro conjI)
qed

text \<open>
  C2 on the code. A request path that begins with two separators leaves, once its
  first character is dropped, a rooted path: cleaning keeps it rooted, it is not
  hidden, and the handler stats and opens that absolute path. Here it serves the
  bytes of a file outside the server root.
\<close>

theorem rooted_remainder_served:
  "filepath_Clean (tl ''//etc/passwd'') = ''/etc/passwd'' \<and>
   isHiddenPath ''/etc/passwd'' = False \<and>
   resolve site (http_request ''GET'' ''//etc/passwd'' []) False =
     Inr (''/etc/passwd'', file_entry ''passwd'' 1500 20000000000) \<and>
   requestHandler site (http_request ''GET'' ''//etc/passwd'' []) False =
     Response \<lparr>rs_status = 200,
               rs_header = [''Last-Modified'' \<mapsto> HttpDate 20000000000,
                            ''Content-Type'' \<mapsto> Str ''application/octet-stream''],
               rs_body = FileBytes (bytes_of ''/etc/passwd'')\<rparr>"
proof -
  have c: "filepath_Clean (tl ''//etc/passwd'') = ''/etc/passwd''"
    by (simp add: filepath_Clean_def)
  have h: "isHiddenPath ''/etc/passwd'' = False"
    by (simp add: isHiddenPath_def strings_Index_def)
  have o: "os_Open site ''/etc/passwd'' = Some (bytes_of ''/etc/passwd'')"
    by (simp add: site_def site_files_def file_entry_def dir_entry_def)
  have f: "file_headers ''/etc/passwd'' (file_entry ''passwd'' 1500 20000000000) =
      [''Last-Modified'' \<mapsto> HttpDate 20000000000,
       ''Content-Type'' \<mapsto> Str ''application/octet-stream'']"
    by (simp add: file_headers_def file_entry_def truncate_second_def derived_extension_def
        mimes_def mime_table_def)
  from site_plain_get [OF site_dot_requests(3) o] f
  have "requestHandler site (http_request ''GET'' ''//etc/passwd'' []) False =
     Response \<lparr>rs_status = 200,
               rs_header = [''Last-Modified'' \<mapsto> HttpDate 20000000000,
                            ''Content-Type'' \<mapsto> Str ''application/octet-stream''],
               rs_body = FileBytes (bytes_of ''/etc/passwd'')\<rparr>"
    by simp
  with c h site_dot_requests(3) show ?thesis
    by (intro conjI)
qed

text \<open>
  C3. For a served file (it resolves and opens) the response is 304 exactly when the
  \<^verbatim>\<open>If-Modified-Since\<close> value parses and the modification time, truncated to whole
  seconds, is earlier than or equal to the parsed instant; a 304 has no body. When the
  value does not parse the file is served fresh with status 200, and so it is when the
  header is absent (the value is then the empty string, which \<^verbatim>\<open>time.Parse\<close> rejects).
  A fresh \<^verbatim>\<open>GET\<close> carries the file, as it is or compressed.
\<close>

theorem not_modified_iff_truncated_mtime_le:
  assumes "resolve w req listDir = Inr (path, stat)"
      and "os_Open w path = Some content"
  shows "\<exists>r. requestHandler w req listDir = Response r \<and>
             (rs_status r = 304 \<longleftrightarrow>
                (\<exists>since. time_Parse w (header_Get (rq_header req) ''If-Modified-Since'') = Some since \<and>
                         truncate_second (fi_mod_time stat) \<le> since)) \<and>
             (rs_status r = 304 \<longrightarrow> rs_body r = NoBody) \<and>
             (rs_status r \<noteq> 304 \<longrightarrow> rs_status r = 200) \<and>
             (time_Parse w (header_Get (rq_header req) ''If-Modified-Since'') = None \<longrightarrow>
                rs_status r = 200) \<and>
             (rq_header req ''If-Modified-Since'' = None \<and> time_Parse w [] = None \<longrightarrow>
                rs_status r = 200) \<and>
             (rs_status r = 200 \<and> rq_method req = ''GET'' \<longrightarrow>
                rs_body r = FileBytes content \<or> rs_body r = GzipStream content)"
proof -
  have nm: "not_modified_since w req stat \<longleftrightarrow>
      (\<exists>since. time_Parse w (header_Get (rq_header req) ''If-Modified-Since'') = Some since \<and>
               truncate_second (fi_mod_time stat) \<le> since)"
    by (simp add: not_modified_since_def split: option.splits)
  have absent: "rq_header req ''If-Modified-Since'' = None \<Longrightarrow>
      header_Get (rq_header req) ''If-Modified-Since'' = []"
    by (simp add: header_Get_def)
  show ?thesis
  proof (cases "not_modified_since w req stat")
    case True
    with assms nm absent show ?thesis
      by (auto simp add: requestHandler_serves serve_file_opened)
  next
    case False
    with assms nm absent show ?thesis
      by (auto simp add: requestHandler_serves serve_file_opened)
  qed
qed

theorem not_modified_iff_truncated_mtime_le_witness:
  "time_Parse site ''Thu, 01 Jan 1970 00:00:10 GMT'' = Some 10000000000 \<and>
   fi_mod_time (file_entry ''style.css'' 2000 10500000000) = 10500000000 \<and>
   truncate_second 10500000000 = 10000000000 \<and>
   (\<exists>r. requestHandler site
          (http_request ''GET'' ''/style.css''
             [(''If-Modified-Since'', ''Thu, 01 Jan 1970 00:00:10 GMT'')]) False
        = Response r \<and> rs_status r = 304 \<and> rs_body r = NoBody) \<and>
   (\<exists>r. requestHandler site
          (http_request ''GET'' ''/style.css'' [(''If-Modified-Since'', ''yesterday'')]) False
        = Response r \<and> rs_status r = 200 \<and>
        (rs_body r = FileBytes (bytes_of ''style.css'') \<or>
         rs_body r = GzipStream (bytes_of ''style.css'')))"
proof -
  let ?ok = "http_request ''GET'' ''/style.css''
               [(''If-Modified-Since'', ''Thu, 01 Jan 1970 00:00:10 GMT'')]"
  let ?bad = "http_request ''GET'' ''/style.css'' [(''If-Modified-Since'', ''yesterday'')]"
  have p1: "time_Parse site (header_Get (rq_header ?ok) ''If-Modified-Since'') = Some 10000000000"
    by (simp add: eval_site)
  have p2: "time_Parse site ''Thu, 01 Jan 1970 00:00:10 GMT'' = Some 10000000000"
    by (simp add: eval_site)
  have p3: "time_Parse site (header_Get (rq_header ?bad) ''If-Modified-Since'') = None"
    by (simp add: eval_site)
  have t1: "fi_mod_time (file_entry ''style.css'' 2000 10500000000) = 10500000000"
    by (simp add: file_entry_def)
  have t2: "truncate_second 10500000000 = 10000000000"
    by (simp add: truncate_second_def)
  have g: "rq_method ?bad = ''GET''"
    by (simp add: http_request_def)
  have first: "\<exists>r. requestHandler site ?ok False = Response r \<and> rs_status r = 304 \<and>
      rs_body r = NoBody"
    using not_modified_iff_truncated_mtime_le [OF resolve_style open_site_files(3),
        of "[(''If-Modified-Since'', ''Thu, 01 Jan 1970 00:00:10 GMT'')]" False]
    by (clarsimp simp add: p1 t1 t2)
  have second: "\<exists>r. requestHandler site ?bad False = Response r \<and> rs_status r = 200 \<and>
      (rs_body r = FileBytes (bytes_of ''style.css'') \<or>
       rs_body r = GzipStream (bytes_of ''style.css''))"
    using not_modified_iff_truncated_mtime_le [OF resolve_style open_site_files(3),
        of "[(''If-Modified-Since'', ''yesterday'')]" False]
    by (clarsimp simp add: p3 g)
  from p2 t1 t2 first second show ?thesis
    by (intro conjI)
qed

text \<open>
  C4. A \<^verbatim>\<open>GET\<close> request that serves a file body (the file resolves and opens, and the
  conditional check does not answer 304) gets status 200, and the body is the gzip
  stream of the file exactly when the size exceeds 1024 bytes, the extension is in the
  compressible set and \<^verbatim>\<open>Accept-Encoding\<close> contains \<^verbatim>\<open>gzip\<close>; the
  \<^verbatim>\<open>Content-Encoding\<close> header is \<^verbatim>\<open>gzip\<close> exactly then. Otherwise the body is the
  file's bytes and the header is absent; in particular for every file of at most
  1024 bytes.
\<close>

theorem gzip_iff_large_compressible_accepted:
  assumes "resolve w req listDir = Inr (path, stat)"
      and "os_Open w path = Some content"
      and "rq_method req = ''GET''"
      and "\<not> not_modified_since w req stat"
  shows "\<exists>r. requestHandler w req listDir = Response r \<and>
             rs_status r = 200 \<and>
             (rs_body r = GzipStream content \<longleftrightarrow> compression_applies req path stat) \<and>
             (rs_header r ''Content-Encoding'' = Some (Str ''gzip'') \<longleftrightarrow>
                compression_applies req path stat) \<and>
             (\<not> compression_applies req path stat \<longrightarrow>
                rs_body r = FileBytes content \<and> rs_header r ''Content-Encoding'' = None) \<and>
             (sint (fi_size stat) \<le> 1024 \<longrightarrow>
                rs_body r = FileBytes content \<and> rs_header r ''Content-Encoding'' = None)"
proof -
  have small: "sint (fi_size stat) \<le> 1024 \<Longrightarrow> \<not> compression_applies req path stat"
    by (simp add: compression_applies_def)
  show ?thesis
  proof (cases "compression_applies req path stat")
    case True
    with assms small show ?thesis
      by (auto simp add: requestHandler_serves serve_file_opened file_headers_def)
  next
    case False
    with assms show ?thesis
      by (simp add: requestHandler_serves serve_file_opened file_headers_def)
  qed
qed

theorem gzip_iff_large_compressible_accepted_witness:
  "compression_applies (http_request ''GET'' ''/style.css'' [(''Accept-Encoding'', ''deflate, gzip'')])
     ''style.css'' (file_entry ''style.css'' 2000 10500000000) \<and>
   (\<exists>r. requestHandler site
          (http_request ''GET'' ''/style.css'' [(''Accept-Encoding'', ''deflate, gzip'')]) False
        = Response r \<and> rs_status r = 200 \<and>
        rs_body r = GzipStream (bytes_of ''style.css'') \<and>
        rs_header r ''Content-Encoding'' = Some (Str ''gzip'')) \<and>
   (\<exists>r. requestHandler site
          (http_request ''GET'' ''/small.css'' [(''Accept-Encoding'', ''deflate, gzip'')]) False
        = Response r \<and> rs_status r = 200 \<and>
        rs_body r = FileBytes (bytes_of ''small.css'') \<and>
        rs_header r ''Content-Encoding'' = None)"
proof -
  let ?hs = "[(''Accept-Encoding'', ''deflate, gzip'')]"
  have fresh: "\<not> not_modified_since site (http_request ''GET'' p ?hs) st" for p st
    by (simp add: not_modified_since_def eval_site)
  have get: "rq_method (http_request ''GET'' p ?hs) = ''GET''" for p
    by (simp add: http_request_def)
  have big: "compression_applies (http_request ''GET'' ''/style.css'' ?hs)
               ''style.css'' (file_entry ''style.css'' 2000 10500000000)"
    using accept_gzip
    by (simp add: compression_applies_def derived_extension_examples compressExts_def
        http_request_def header_Get_def file_entry_def)
  have small: "sint (fi_size (file_entry ''small.css'' 1024 10500000000)) \<le> 1024"
    by (simp add: file_entry_def)
  show ?thesis
    using gzip_iff_large_compressible_accepted [OF resolve_style open_site_files(3) get fresh]
      gzip_iff_large_compressible_accepted [OF resolve_small open_site_files(4) get fresh]
      big small
    by blast
qed

text \<open>
  C5. A request that resolves to an existing directory whose normalized path \<open>p\<close> is
  not the root, and whose request path does not end with the separator, is answered
  301 with \<^verbatim>\<open>Location\<close> equal to \<^verbatim>\<open>/p/\<close> and no body; when the request path is
  already the normalized one, that is \<^verbatim>\<open>/p\<close>, the location is the request path plus
  the separator. No request whose normalized path is the root is ever answered 301.
\<close>

theorem directory_without_slash_redirects:
  "(resolves_to_directory w req p \<and> p \<noteq> ''.'' \<and> last (rq_path req) \<noteq> CHR ''/'' \<longrightarrow>
      requestHandler w req listDir =
        Response \<lparr>rs_status = 301,
                  rs_header = [''Location'' \<mapsto> Str (''/'' @ p @ ''/'')],
                  rs_body = NoBody\<rparr> \<and>
      (rq_path req = ''/'' @ p \<longrightarrow>
         requestHandler w req listDir =
           Response \<lparr>rs_status = 301,
                     rs_header = [''Location'' \<mapsto> Str (rq_path req @ ''/'')],
                     rs_body = NoBody\<rparr>)) \<and>
   (filepath_Clean (tl (rq_path req)) = ''.'' \<longrightarrow>
      (\<forall>r. requestHandler w req listDir = Response r \<longrightarrow> rs_status r \<noteq> 301))"
proof (intro conjI impI allI)
  assume a: "resolves_to_directory w req p \<and> p \<noteq> ''.'' \<and> last (rq_path req) \<noteq> CHR ''/''"
  then have d: "resolves_to_directory w req p"
    and c: "(p \<noteq> ''.'' \<and> last (rq_path req) \<noteq> CHR ''/'') = True"
    by simp_all
  show r: "requestHandler w req listDir =
        Response \<lparr>rs_status = 301,
                  rs_header = [''Location'' \<mapsto> Str (''/'' @ p @ ''/'')],
                  rs_body = NoBody\<rparr>"
    unfolding requestHandler_def resolve_on_directory [OF d] c by simp
  assume "rq_path req = ''/'' @ p"
  with r show "requestHandler w req listDir =
           Response \<lparr>rs_status = 301,
                     rs_header = [''Location'' \<mapsto> Str (rq_path req @ ''/'')],
                     rs_body = NoBody\<rparr>"
    by simp
next
  fix r
  assume root: "filepath_Clean (tl (rq_path req)) = ''.''"
    and out: "requestHandler w req listDir = Response r"
  show "rs_status r \<noteq> 301"
  proof (cases "resolve w req listDir")
    case (Inr found)
    with out have "serve_file w req (fst found) (snd found) = Response r"
      by (simp add: requestHandler_def split: prod.splits)
    from serve_file_answers [OF this] show ?thesis by auto
  next
    case (Inl o1)
    with out have o1: "o1 = Response r"
      by (simp add: requestHandler_def)
    from Inl show ?thesis
      unfolding resolve_def Let_def root o1
      by (auto simp add: http_Error_fields dest: showListing_answers
          split: if_splits option.splits)
  qed
qed

theorem directory_without_slash_redirects_witness:
  "requestHandler site (http_request ''GET'' ''/docs'' []) True =
     Response \<lparr>rs_status = 301, rs_header = [''Location'' \<mapsto> Str ''/docs/''],
               rs_body = NoBody\<rparr> \<and>
   filepath_Clean (tl ''/'') = ''.'' \<and>
   (\<exists>r. requestHandler site (http_request ''GET'' ''/'' []) True = Response r \<and>
        rs_status r = 200)"
proof -
  let ?docs = "http_request ''GET'' ''/docs'' []"
  let ?root = "http_request ''GET'' ''/'' []"
  have l: "last (rq_path ?docs) \<noteq> CHR ''/''" "rq_path ?docs = ''/'' @ ''docs''"
    by (simp_all add: http_request_def)
  have "requestHandler site ?docs True =
      Response \<lparr>rs_status = 301,
                rs_header = [''Location'' \<mapsto> Str (rq_path ?docs @ ''/'')],
                rs_body = NoBody\<rparr>"
    using directory_without_slash_redirects [of site ?docs "''docs''" True]
      site_directories(1) [of "[]"] l
    by simp
  then have first: "requestHandler site ?docs True =
      Response \<lparr>rs_status = 301, rs_header = [''Location'' \<mapsto> Str ''/docs/''],
                rs_body = NoBody\<rparr>"
    by (simp add: http_request_def)
  have c: "filepath_Clean (tl ''/'') = ''.''"
    by (simp add: filepath_Clean_def)
  have "requestHandler site ?root True =
      serve_file site ?root ''./index.html'' (the (os_Stat site ''./index.html''))"
    using requestHandler_on_directory [OF site_directories(4), of "[]" True]
    by (simp add: qualifies_def eval_site)
  moreover have "os_Open site ''./index.html'' = Some (bytes_of ''./index.html'')"
    by (simp add: eval_site)
  moreover have "\<not> not_modified_since site ?root st" for st
    by (simp add: not_modified_since_def eval_site)
  ultimately have second: "\<exists>r. requestHandler site ?root True = Response r \<and> rs_status r = 200"
    by (simp add: serve_file_opened)
  from first c second show ?thesis
    by (intro conjI)
qed

text \<open>
  C6. A request to a directory whose path ends with the separator (or whose
  normalized path is the root) probes \<^verbatim>\<open>index.html\<close> first and \<^verbatim>\<open>index.xhtml\<close> second:
  the first of the two that exists and is not a directory is served in place of the
  directory, with its own metadata. Only when neither qualifies is the listing
  rendered, if enabled, or 404 returned. Serving a file never renders a listing, so a
  directory with an \<^verbatim>\<open>index.html\<close> is answered with that file also when listing is
  enabled.
\<close>

theorem index_candidates_in_order:
  assumes "resolves_to_directory w req p"
      and "p = ''.'' \<or> last (rq_path req) = CHR ''/''"
  shows "requestHandler w req listDir =
           (if qualifies w (p @ ''/index.html'')
            then serve_file w req (p @ ''/index.html'') (the (os_Stat w (p @ ''/index.html'')))
            else if qualifies w (p @ ''/index.xhtml'')
            then serve_file w req (p @ ''/index.xhtml'') (the (os_Stat w (p @ ''/index.xhtml'')))
            else if listDir then showListing w p
            else Response (http_Error ''File not found'' 404)) \<and>
         (\<forall>q st r t rows. serve_file w req q st = Response r \<longrightarrow>
            rs_body r \<noteq> ListingPage t rows) \<and>
         (qualifies w (p @ ''/index.html'') \<or> qualifies w (p @ ''/index.xhtml'') \<longrightarrow>
            (\<forall>r t rows. requestHandler w req listDir = Response r \<longrightarrow>
               rs_body r \<noteq> ListingPage t rows))"
proof -
  have h: "requestHandler w req listDir =
           (if qualifies w (p @ ''/index.html'')
            then serve_file w req (p @ ''/index.html'') (the (os_Stat w (p @ ''/index.html'')))
            else if qualifies w (p @ ''/index.xhtml'')
            then serve_file w req (p @ ''/index.xhtml'') (the (os_Stat w (p @ ''/index.xhtml'')))
            else if listDir then showListing w p
            else Response (http_Error ''File not found'' 404))"
    by (rule requestHandler_on_directory [OF assms])
  have s: "rs_body r \<noteq> ListingPage t rows"
    if "serve_file w req q st = Response r" for q st r t rows
    using serve_file_answers [OF that] by simp
  have "rs_body r \<noteq> ListingPage t rows"
    if "qualifies w (p @ ''/index.html'') \<or> qualifies w (p @ ''/index.xhtml'')"
      and "requestHandler w req listDir = Response r" for r t rows
    using that h s by (auto split: if_splits)
  with h s show ?thesis by blast
qed

theorem index_candidates_in_order_witness:
  "requestHandler site (http_request ''GET'' ''/docs/'' []) True =
     Response \<lparr>rs_status = 200,
               rs_header = [''Last-Modified'' \<mapsto> HttpDate 7000000000,
                            ''Content-Type'' \<mapsto> Str ''text/html''],
               rs_body = FileBytes (bytes_of ''docs/index.html'')\<rparr>"
proof -
  let ?req = "http_request ''GET'' ''/docs/'' []"
  have l: "''docs'' = ''.'' \<or> last (rq_path ?req) = CHR ''/''"
    by (simp add: http_request_def)
  have "requestHandler site ?req True =
      serve_file site ?req ''docs/index.html'' (file_entry ''index.html'' 120 7000000000)"
    using index_candidates_in_order [OF site_directories(2) l, of True] site_index_candidates
    by simp
  moreover have "\<not> not_modified_since site ?req st" for st
    by (simp add: not_modified_since_def eval_site)
  moreover have "rq_method ?req \<noteq> ''HEAD''"
    by (simp add: http_request_def)
  moreover have "\<not> compression_applies ?req ''docs/index.html'' st" for st
    by (simp add: compression_applies_def http_request_def header_Get_def)
  moreover have "file_headers ''docs/index.html'' (file_entry ''index.html'' 120 7000000000) =
      [''Last-Modified'' \<mapsto> HttpDate 7000000000, ''Content-Type'' \<mapsto> Str ''text/html'']"
    by (simp add: file_headers_def file_entry_def truncate_second_def derived_extension_def
        mimes_def mime_table_def)
  ultimately show ?thesis
    by (simp add: serve_file_opened [OF site_index_candidates(5)])
qed

text \<open>
  C7, as the claim states it, fails: when the write of the listing fails, the handler
  panics and answers nothing.
\<close>

theorem listing_failure_not_500_counterexample:
  "requestHandler broken_pipe (http_request ''GET'' ''/pics/'' []) True = Panic TemplateExecute"
proof -
  have d: "listing_request broken_pipe (http_request ''GET'' ''/pics/'' []) ''pics''"
    by (simp add: listing_request_def resolves_to_directory_def qualifies_def broken_pipe_def
        eval_path eval_site)
  have "showListing broken_pipe ''pics'' = Panic TemplateExecute"
    by (simp add: showListing_def template_Execute_def broken_pipe_def site_def)
  with requestHandler_listing [OF d] show ?thesis
    by simp
qed

text \<open>
  C7, amended. For a directory-listing request with listing enabled whose directory
  read succeeds, a rendering failure (the template does not parse, or its execution
  reports an error) makes the handler panic: it completes with no response. No path
  of the handler answers with a 500-class status: the statuses it writes are 200, 301,
  304, 404 and 405.
\<close>

theorem listing_failure_panics:
  assumes "listing_request w req p"
      and "ioutil_ReadDir w p = Some files"
      and "\<not> template_Parse_ok w \<or> template_Execute w p files = None"
  shows "requestHandler w req True =
           Panic (if \<not> template_Parse_ok w then TemplateParse else TemplateExecute) \<and>
         (\<forall>w' req' listDir r. requestHandler w' req' listDir = Response r \<longrightarrow>
            rs_status r \<in> {200, 301, 304, 404, 405})"
proof -
  from assms(2,3) have "showListing w p =
      Panic (if \<not> template_Parse_ok w then TemplateParse else TemplateExecute)"
    by (auto simp add: showListing_def)
  with requestHandler_listing [OF assms(1)] requestHandler_statuses show ?thesis
    by simp
qed

theorem listing_failure_panics_witness:
  "template_Execute broken_pipe ''pics''
     [dir_entry ''.thumbs'', file_entry ''a.png'' 900 5000000000,
      file_entry ''.DS_Store'' 6148 5000000000, dir_entry ''sub''] = None \<and>
   requestHandler broken_pipe (http_request ''HEAD'' ''/pics/'' []) True = Panic TemplateExecute"
proof -
  let ?files = "[dir_entry ''.thumbs'', file_entry ''a.png'' 900 5000000000,
      file_entry ''.DS_Store'' 6148 5000000000, dir_entry ''sub'']"
  have d: "listing_request broken_pipe (http_request ''HEAD'' ''/pics/'' []) ''pics''"
    by (simp add: listing_request_def resolves_to_directory_def qualifies_def broken_pipe_def
        eval_path eval_site)
  have f: "ioutil_ReadDir broken_pipe ''pics'' = Some ?files"
    by (simp add: broken_pipe_def site_def)
  have x: "template_Execute broken_pipe ''pics'' ?files = None"
    by (simp add: template_Execute_def broken_pipe_def site_def)
  then have e: "\<not> template_Parse_ok broken_pipe \<or>
      template_Execute broken_pipe ''pics'' ?files = None"
    by simp
  have p: "template_Parse_ok broken_pipe"
    by (simp add: broken_pipe_def site_def)
  from listing_failure_panics [OF d f e] p x show ?thesis
    by simp
qed

text \<open>
  C8. Every rendered listing shows, in the order of the directory read, one row for
  each entry whose name does not start with a dot and no other row: no row's link or
  text starts with a dot, the row of an entry whose name starts with a dot is not
  among the rows, and the row of every other entry occurs among the rows as often as
  the entry occurs in the directory read; that is exactly once when the names of the
  entries are distinct, as those of a directory are.
\<close>

theorem listing_shows_visible_entries_once:
  assumes "requestHandler w req listDir = Response r"
      and "rs_body r = ListingPage t rows"
  shows "\<exists>files. ioutil_ReadDir w t = Some files \<and>
           rows = map render_row (filter (\<lambda>f. \<not> starts_with_dot (fi_name f)) files) \<and>
           (\<forall>row\<in>set rows. \<not> starts_with_dot (row_href row) \<and>
                            \<not> starts_with_dot (row_text row)) \<and>
           (\<forall>f\<in>set files. starts_with_dot (fi_name f) \<longrightarrow> render_row f \<notin> set rows) \<and>
           (\<forall>f\<in>set files. \<not> starts_with_dot (fi_name f) \<longrightarrow>
              count_list rows (render_row f) = count_list (map render_row files) (render_row f)) \<and>
           (distinct (map fi_name files) \<longrightarrow>
              (\<forall>f\<in>set files. \<not> starts_with_dot (fi_name f) \<longrightarrow>
                 count_list rows (render_row f) = 1))"
proof -
  from requestHandler_page [OF assms] have "showListing w t = Response r" .
  from showListing_page [OF this assms(2)] obtain files
    where rd: "ioutil_ReadDir w t = Some files" and rr: "render_rows files = Some rows"
    by blast
  from render_rows_Some [OF rr]
  have ne: "\<forall>f\<in>set files. fi_name f \<noteq> []"
    and rows: "rows = map render_row (filter (\<lambda>f. \<not> starts_with_dot (fi_name f)) files)"
    by simp_all
  have vis: "\<forall>row\<in>set rows. \<not> starts_with_dot (row_href row) \<and>
      \<not> starts_with_dot (row_text row)"
    using ne rows by (auto simp add: render_row_href_dot)
  have hid: "\<forall>f\<in>set files. starts_with_dot (fi_name f) \<longrightarrow> render_row f \<notin> set rows"
  proof (intro ballI impI)
    fix f
    assume f: "f \<in> set files" and d: "starts_with_dot (fi_name f)"
    with ne have "starts_with_dot (row_href (render_row f))"
      by (simp add: render_row_href_dot)
    with vis show "render_row f \<notin> set rows" by blast
  qed
  have cnt: "\<forall>f\<in>set files. \<not> starts_with_dot (fi_name f) \<longrightarrow>
      count_list rows (render_row f) = count_list (map render_row files) (render_row f)"
    using ne rows count_visible_rows [OF ne] by simp
  have once: "distinct (map fi_name files) \<longrightarrow>
      (\<forall>f\<in>set files. \<not> starts_with_dot (fi_name f) \<longrightarrow>
         count_list rows (render_row f) = 1)"
    using cnt count_row_distinct_names [of files] by simp
  from rd rows vis hid cnt once show ?thesis by blast
qed

theorem listing_shows_visible_entries_once_witness:
  "requestHandler site (http_request ''GET'' ''/pics/'' []) True =
     Response \<lparr>rs_status = 200, rs_header = Map.empty,
               rs_body = ListingPage ''pics''
                 [\<lparr>row_href = ''a.png'', row_text = ''a.png'', row_size = Some 900,
                   row_modified = Some 5000000000\<rparr>,
                  \<lparr>row_href = ''sub/'', row_text = ''sub/'', row_size = None,
                   row_modified = None\<rparr>]\<rparr> \<and>
   (\<exists>files. ioutil_ReadDir site ''pics'' = Some files \<and>
      [\<lparr>row_href = ''a.png'', row_text = ''a.png'', row_size = Some 900,
        row_modified = Some 5000000000\<rparr>,
       \<lparr>row_href = ''sub/'', row_text = ''sub/'', row_size = None, row_modified = None\<rparr>]
      = map render_row (filter (\<lambda>f. \<not> starts_with_dot (fi_name f)) files))"
proof -
  let ?rows = "[\<lparr>row_href = ''a.png'', row_text = ''a.png'', row_size = Some 900,
                  row_modified = Some 5000000000\<rparr>,
                \<lparr>row_href = ''sub/'', row_text = ''sub/'', row_size = None,
                  row_modified = None\<rparr>]"
  let ?r = "\<lparr>rs_status = 200, rs_header = Map.empty, rs_body = ListingPage ''pics'' ?rows\<rparr>"
  have "showListing site ''pics'' = Response ?r"
    by (simp add: showListing_def template_Execute_def render_row_def
        site_def file_entry_def dir_entry_def)
  then have e: "requestHandler site (http_request ''GET'' ''/pics/'' []) True = Response ?r"
    by (simp add: site_pics_listing)
  have b: "rs_body ?r = ListingPage ''pics'' ?rows"
    by simp
  from listing_shows_visible_entries_once [OF e b]
  have "\<exists>files. ioutil_ReadDir site ''pics'' = Some files \<and>
      ?rows = map render_row (filter (\<lambda>f. \<not> starts_with_dot (fi_name f)) files)"
    by (elim exE conjE) (intro exI conjI; assumption)
  with e show ?thesis
    by (intro conjI)
qed

text \<open>
  C9. A served file whose derived extension (the substring after the last dot of the
  filename, empty if none) is not a key of the MIME table gets the content type
  \<^verbatim>\<open>application/octet-stream\<close>.
\<close>

theorem unknown_extension_octet_stream:
  assumes "resolve w req listDir = Inr (path, stat)"
      and "os_Open w path = Some content"
      and "mimes (derived_extension path) = None"
  shows "\<exists>r. requestHandler w req listDir = Response r \<and>
             rs_header r ''Content-Type'' = Some (Str ''application/octet-stream'')"
  using assms
  by (simp add: requestHandler_serves serve_file_opened file_headers_def)

theorem unknown_extension_octet_stream_witness:
  "mimes (derived_extension ''data.bin'') = None \<and>
   (\<exists>r. requestHandler site (http_request ''GET'' ''/data.bin'' []) False = Response r \<and>
        rs_header r ''Content-Type'' = Some (Str ''application/octet-stream''))"
proof -
  have m: "mimes (derived_extension ''data.bin'') = None"
    by (simp add: derived_extension_examples mimes_def mime_table_def)
  show ?thesis
    using unknown_extension_octet_stream [OF resolve_data_bin open_site_files(1) m] m
    by simp
qed

text \<open>
  C10. Extension matching is exact and case-sensitive. A served file whose extension
  is not its own lowercase form (an uppercase or mixed-case variant of any extension,
  known or not, as in \<^verbatim>\<open>STYLE.CSS\<close> or \<^verbatim>\<open>README.TXT\<close>) is answered with the content type
  \<^verbatim>\<open>application/octet-stream\<close> and is never gzip-compressed: no
  \<^verbatim>\<open>Content-Encoding\<close> header and no gzip stream, whatever its size and whatever the
  request's headers.
\<close>

theorem uppercase_extension_untyped_uncompressed:
  assumes "resolve w req listDir = Inr (path, stat)"
      and "os_Open w path = Some content"
      and "map to_lower (derived_extension path) \<noteq> derived_extension path"
  shows "\<exists>r. requestHandler w req listDir = Response r \<and>
             rs_header r ''Content-Type'' = Some (Str ''application/octet-stream'') \<and>
             rs_header r ''Content-Encoding'' = None \<and>
             (\<forall>c. rs_body r \<noteq> GzipStream c)"
proof -
  from assms(3) have nl: "\<not> list_all lower_or_digit (derived_extension path)"
    using to_lower_id by blast
  have m: "mimes (derived_extension path) = None"
  proof (cases "mimes (derived_extension path)")
    case None
    then show ?thesis .
  next
    case (Some v)
    then show ?thesis using nl mimes_keys_lower by blast
  qed
  have c: "\<not> compression_applies req path stat"
    using nl compressExts_lower by (auto simp add: compression_applies_def)
  show ?thesis
    using assms(1,2) m c
    by (simp add: requestHandler_serves serve_file_opened file_headers_def)
qed

theorem uppercase_extension_untyped_uncompressed_witness:
  "map to_lower (derived_extension ''README.TXT'') = ''txt'' \<and>
   mimes ''txt'' = Some ''text/plain'' \<and>
   stringInSlice ''txt'' compressExts \<and>
   (\<exists>r. requestHandler site
          (http_request ''GET'' ''/README.TXT'' [(''Accept-Encoding'', ''gzip'')]) False
        = Response r \<and>
        rs_header r ''Content-Type'' = Some (Str ''application/octet-stream'') \<and>
        rs_header r ''Content-Encoding'' = None \<and>
        (\<forall>c. rs_body r \<noteq> GzipStream c))"
proof -
  have v: "map to_lower (derived_extension ''README.TXT'') \<noteq> derived_extension ''README.TXT''"
    by (simp add: derived_extension_examples to_lower_def)
  have l: "map to_lower (derived_extension ''README.TXT'') = ''txt''"
    by (simp add: derived_extension_examples to_lower_def)
  have k: "mimes ''txt'' = Some ''text/plain''" "stringInSlice ''txt'' compressExts"
    by (simp_all add: mimes_def mime_table_def compressExts_def)
  show ?thesis
    using uppercase_extension_untyped_uncompressed [OF resolve_readme open_site_files(2) v] l k
    by simp
qed

end
